theory Spec2Isabelle
  imports Complex_Main
begin

section \<open>Admission controller: \<open>api/rate_limiter.py\<close>, class \<open>RateLimiter\<close>\<close>

text \<open>
  The limiter keeps, per key, the list of admission timestamps
  (\<open>self.requests: Dict[str, List[float]]\<close>). Timestamps are the values of
  \<open>time.time()\<close>; they are modelled as real numbers, so that the subtraction
  \<open>current_time - self.time_window\<close> is exact. The clock reading is an explicit argument
  of every operation. \<open>rate_limit\<close> is a Python \<open>int\<close>. The field \<open>cleanup_task\<close>
  records whether \<open>start()\<close> has created the background sweep
  (\<open>self._cleanup_task is not None\<close>). Every operation below runs its body under
  \<open>self._lock\<close> without awaiting inside, so it is one atomic state transformer.
\<close>

datatype rl_error = RateLimitExceeded

record rate_limiter =
  rate_limit :: int
  time_window :: real
  requests :: "string \<rightharpoonup> real list"
  cleanup_task :: bool


text \<open>\<open>RateLimiter.start\<close>: creates the sweep task unless there is one.\<close>

definition start :: "rate_limiter \<Rightarrow> rate_limiter" where
  "start s = (if \<not> cleanup_task s then s\<lparr>cleanup_task := True\<rparr> else s)"

text \<open>The list comprehension \<open>[ts for ts in self.requests[key] if ts > cutoff_time]\<close>.\<close>

definition newer_than :: "real \<Rightarrow> real list \<Rightarrow> real list" where
  "newer_than cutoff_time tss = filter (\<lambda>ts. ts > cutoff_time) tss"

text \<open>
  \<open>RateLimiter.check_rate_limit\<close>. The exception is raised inside the
  \<open>async with self._lock\<close> block after the pruned list has been stored, so the failing
  branch returns the state with the pruned list.
\<close>

definition check_rate_limit ::
  "string \<Rightarrow> real \<Rightarrow> rate_limiter \<Rightarrow> (rl_error + unit) \<times> rate_limiter" where
  "check_rate_limit key current_time s0 =
     (let s = start s0;
          stored = (case requests s key of None \<Rightarrow> [] | Some tss \<Rightarrow> tss);
          cutoff_time = current_time - time_window s;
          kept = newer_than cutoff_time stored
      in if int (length kept) \<ge> rate_limit s
         then (Inl RateLimitExceeded, s\<lparr>requests := (requests s)(key \<mapsto> kept)\<rparr>)
         else (Inr (), s\<lparr>requests := (requests s)(key \<mapsto> kept @ [current_time])\<rparr>))"

text \<open>\<open>RateLimiter.get_remaining_requests\<close>.\<close>

definition get_remaining_requests ::
  "string \<Rightarrow> real \<Rightarrow> rate_limiter \<Rightarrow> int \<times> rate_limiter" where
  "get_remaining_requests key current_time s0 =
     (let s = start s0
      in case requests s key of
           None \<Rightarrow> (rate_limit s, s)
         | Some tss \<Rightarrow>
             (let cutoff_time = current_time - time_window s;
                  kept = newer_than cutoff_time tss
              in (max 0 (rate_limit s - int (length kept)),
                  s\<lparr>requests := (requests s)(key \<mapsto> kept)\<rparr>)))"

text \<open>
  One pass of the loop body of \<open>RateLimiter._periodic_cleanup\<close>, after the sleep: every
  known key is pruned, and deleted when its list is left empty. The loop visits each key
  of \<open>list(self.requests.keys())\<close> once and touches only that key's entry, so the pass is
  the pointwise transformation of the dictionary.
\<close>

definition periodic_cleanup :: "real \<Rightarrow> rate_limiter \<Rightarrow> rate_limiter" where
  "periodic_cleanup current_time s =
     (let cutoff_time = current_time - time_window s
      in s\<lparr>requests := (\<lambda>key. case requests s key of
                                  None \<Rightarrow> None
                                | Some tss \<Rightarrow>
                                    (let kept = newer_than cutoff_time tss
                                     in if kept = [] then None else Some kept))\<rparr>)"

text \<open>The timestamps stored for a key; a key that is not in the dictionary has none.\<close>

definition stored_for :: "rate_limiter \<Rightarrow> string \<Rightarrow> real list" where
  "stored_for s key = (case requests s key of None \<Rightarrow> [] | Some tss \<Rightarrow> tss)"

text \<open>All timestamps of a list lie in the trailing window \<open>[now - window, now]\<close>.\<close>

definition within_window :: "real \<Rightarrow> real \<Rightarrow> real list \<Rightarrow> bool" where
  "within_window now w tss = list_all (\<lambda>ts. now - w \<le> ts \<and> ts \<le> now) tss"






text \<open>
  Two limiter states agree after a cutoff when they have the same configuration and the
  same keys, and each key's lists hold the same timestamps newer than the cutoff.
\<close>

definition agree_after :: "real \<Rightarrow> rate_limiter \<Rightarrow> rate_limiter \<Rightarrow> bool" where
  "agree_after c a b \<longleftrightarrow>
     rate_limit a = rate_limit b \<and> time_window a = time_window b \<and>
     (\<forall>key. rel_option (\<lambda>xs ys. newer_than c xs = newer_than c ys)
              (requests a key) (requests b key))"

text \<open>A limiter state used in the examples: one old admission stored for key \<open>a\<close>.\<close>

definition stale_state :: rate_limiter where
  "stale_state =
     \<lparr>rate_limit = 5, time_window = 1, requests = [''a'' \<mapsto> [0]], cleanup_task = True\<rparr>"

section \<open>Ordering queue manager: \<open>api/request_queue.py\<close>, class \<open>RequestQueue\<close>\<close>

text \<open>
  The class is driven by an asyncio event loop: coroutines run one at a time and give up
  control only at an \<open>await\<close> that suspends. The model is a transition system whose
  steps are the stretches of code between two suspension points. The coroutines are
  \<^item> \<open>enqueue_request\<close>, one activation per caller;
  \<^item> \<open>_process_queue\<close>, one task per created key state;
  \<^item> \<open>cleanup\<close>;
  \<^item> users of the \<open>acquire\<close> context manager.

  Library behaviour that the steps rely on: \<open>asyncio.Lock.acquire\<close>,
  \<open>Semaphore.acquire\<close>, \<open>Queue.get\<close> and \<open>Queue.put\<close> return without suspending when
  the lock is free, a slot is free, an item is there, and the queue is unbounded. No
  \<open>async with self._lock\<close> block of the class other than the one in \<open>cleanup\<close> awaits
  inside, so the lock is seen held only while a \<open>cleanup\<close> waits in \<open>gather\<close>; every
  other lock section is a step that needs the lock free. In particular
  \<open>enqueue_request\<close> runs from its call to its \<open>wait_for\<close> as one step. Acquiring the
  semaphore and entering the \<open>finally\<close> block of the processor are kept as steps of
  their own. A task is opaque: when it ends, and how, is given by the event that ends it.
  Timeouts are events that may happen whenever the waiting coroutine is suspended.

  Objects that are shared by reference (queues, pending dictionaries, futures, tasks)
  live in stores indexed by address; a fresh address is the length of the store.
\<close>

type_synonym uuid = nat

text \<open>Exceptions derived from \<open>Exception\<close>. \<open>CancelledError\<close> derives from
  \<open>BaseException\<close> only and is kept apart.\<close>

datatype exn = TimeoutError | KeyError | ValueError | TaskError nat

text \<open>\<open>asyncio.Future\<close>: pending, or done with a result, an exception, or cancelled.\<close>

datatype fut = Pending | Result nat | Exception exn | Cancelled

text \<open>\<open>QueuedRequest\<close>; \<open>task\<close> stands for the callable with its arguments, \<open>future\<close>
  is the address of the Result Handle.\<close>

record queued_request =
  conversation_id :: uuid
  task :: nat
  future :: nat
  sequence_number :: nat

text \<open>\<open>asyncio.Queue\<close>: the items and the counter that \<open>put\<close> increments and
  \<open>task_done\<close> decrements.\<close>

record queue_obj =
  items :: "queued_request list"
  unfinished_tasks :: nat

text \<open>How the awaited \<open>wait_for(task(...), timeout)\<close> ends: the task returns, raises an
  exception, \<open>wait_for\<close> times out, or \<open>CancelledError\<close> comes out of the task.\<close>

datatype outcome = Returned nat | Raised exn | TimedOut | CancelledInside

text \<open>
  Where a \<open>_process_queue\<close> task stands: created and not yet run (\<open>PNew\<close>), suspended in
  \<open>queue.get()\<close> (\<open>PGet\<close>), holding \<open>next_request\<close> before the semaphore (\<open>PSem\<close>),
  inside the semaphore awaiting the task (\<open>PRun\<close>), before the lock of the \<open>finally\<close>
  block (\<open>PFinally\<close>), finished (\<open>PDone\<close>). The other fields are its local variables and
  the cancellation request that \<open>Task.cancel()\<close> leaves for the next resumption.
\<close>

datatype proc_pc = PNew | PGet | PSem | PRun | PFinally | PDone

record processor =
  p_conversation :: uuid
  p_queue :: nat
  p_pending :: nat
  next_sequence :: nat
  next_request :: "queued_request option"
  p_pc :: proc_pc
  must_cancel :: bool

text \<open>What a call of \<open>enqueue_request\<close> gives its caller.\<close>

datatype call_result = Returns nat | Raises exn | RaisesCancelled

text \<open>An activation of \<open>enqueue_request\<close> that has reached \<open>wait_for(future, ...)\<close>:
  its future, and its result once it has one.\<close>

record caller =
  c_future :: "nat option"
  c_result :: "call_result option"

text \<open>An activation of \<open>cleanup\<close>: its local list \<open>tasks\<close>, and whether it has returned.\<close>

record cleaner =
  cl_tasks :: "nat list"
  cl_done :: bool

text \<open>A user of \<open>acquire()\<close>: counted and waiting for a slot, inside the body, past the
  semaphore and before the decrement, or gone.\<close>

datatype acq_pc = ASem | AHeld | ALeave | ADone

text \<open>
  The fields of \<open>RequestQueue\<close> (\<open>semaphore\<close> is the semaphore's value, \<open>tasks\<close> the keys of
  \<open>_tasks\<close> in insertion order), the object stores, the coroutine activations, and
  \<open>exec_log\<close>, which records each task execution when it begins: the processor and the
  request. The log is instrumentation; no step reads it.
\<close>

record request_queue =
  max_concurrent :: int
  semaphore :: int
  active_requests :: int
  lock_held :: bool
  queues :: "uuid \<rightharpoonup> nat"
  sequence_counters :: "uuid \<rightharpoonup> nat"
  pending_requests :: "uuid \<rightharpoonup> nat"
  tasks :: "nat list"
  queue_objs :: "queue_obj list"
  pending_objs :: "(nat \<rightharpoonup> queued_request) list"
  futures :: "fut list"
  procs :: "processor list"
  callers :: "caller list"
  cleaners :: "cleaner list"
  acquirers :: "acq_pc list"
  exec_log :: "(nat \<times> queued_request) list"

text \<open>\<open>RequestQueue.__init__\<close>; \<open>asyncio.Semaphore\<close> rejects a negative initial value.\<close>

definition new_request_queue :: "int \<Rightarrow> request_queue option" where
  "new_request_queue mc =
     (if mc < 0 then None
      else Some \<lparr>max_concurrent = mc, semaphore = mc, active_requests = 0, lock_held = False,
                 queues = Map.empty, sequence_counters = Map.empty,
                 pending_requests = Map.empty, tasks = [], queue_objs = [],
                 pending_objs = [], futures = [], procs = [], callers = [], cleaners = [],
                 acquirers = [], exec_log = []\<rparr>)"

text \<open>\<open>get_queue_length\<close> and \<open>is_full\<close> read under the lock; they have no value while
  the lock is held.\<close>

definition get_queue_length :: "request_queue \<Rightarrow> int option" where
  "get_queue_length s = (if lock_held s then None else Some (active_requests s))"

definition is_full :: "request_queue \<Rightarrow> bool option" where
  "is_full s = (if lock_held s then None else Some (active_requests s \<ge> max_concurrent s))"

subsection \<open>\<open>enqueue_request\<close>\<close>

definition new_processor :: "uuid \<Rightarrow> processor" where
  "new_processor cid =
     \<lparr>p_conversation = cid, p_queue = 0, p_pending = 0, next_sequence = 0,
      next_request = None, p_pc = PNew, must_cancel = False\<rparr>"

text \<open>The body of \<open>_get_queue\<close>: the queue of the key, created with the counter, the
  pending dictionary and the processor task when the key is not in \<open>self.queues\<close>.\<close>

definition get_queue :: "uuid \<Rightarrow> request_queue \<Rightarrow> nat \<times> request_queue" where
  "get_queue cid s =
     (case queues s cid of
        Some q \<Rightarrow> (q, s)
      | None \<Rightarrow>
          (let q = length (queue_objs s); a = length (pending_objs s); p = length (procs s)
           in (q, s\<lparr>queues := (queues s)(cid \<mapsto> q),
                    sequence_counters := (sequence_counters s)(cid \<mapsto> 0),
                    pending_requests := (pending_requests s)(cid \<mapsto> a),
                    queue_objs := queue_objs s @ [\<lparr>items = [], unfinished_tasks = 0\<rparr>],
                    pending_objs := pending_objs s @ [Map.empty],
                    procs := procs s @ [new_processor cid],
                    tasks := tasks s @ [p]\<rparr>)))"

text \<open>\<open>Queue.put\<close> on an unbounded queue.\<close>

definition put :: "queued_request \<Rightarrow> queue_obj \<Rightarrow> queue_obj" where
  "put r q = q\<lparr>items := items q @ [r], unfinished_tasks := unfinished_tasks q + 1\<rparr>"

text \<open>
  \<open>enqueue_request\<close> up to its \<open>wait_for\<close>: get or create the queue, take and advance
  the key's sequence counter, create the future and the request, store the request in
  \<open>self._pending_requests[conversation_id]\<close> and put it on the queue. A missing dictionary
  entry raises \<open>KeyError\<close> to the caller.
\<close>

definition enqueue_request :: "uuid \<Rightarrow> nat \<Rightarrow> request_queue \<Rightarrow> request_queue option" where
  "enqueue_request cid t s =
     (if lock_held s then None
      else
        (let (q, s1) = get_queue cid s
         in case sequence_counters s1 cid of
              None \<Rightarrow>
                Some (s1\<lparr>callers := callers s1 @
                            [\<lparr>c_future = None, c_result = Some (Raises KeyError)\<rparr>]\<rparr>)
            | Some n \<Rightarrow>
                (let f = length (futures s1);
                     r = \<lparr>conversation_id = cid, task = t, future = f, sequence_number = n\<rparr>;
                     s2 = s1\<lparr>sequence_counters := (sequence_counters s1)(cid \<mapsto> n + 1),
                             futures := futures s1 @ [Pending]\<rparr>
                 in case pending_requests s2 cid of
                      None \<Rightarrow>
                        Some (s2\<lparr>callers := callers s2 @
                                    [\<lparr>c_future = Some f, c_result = Some (Raises KeyError)\<rparr>]\<rparr>)
                    | Some a \<Rightarrow>
                        Some (s2\<lparr>pending_objs :=
                                    (pending_objs s2)[a := (pending_objs s2 ! a)(n \<mapsto> r)],
                                  queue_objs := (queue_objs s2)[q := put r (queue_objs s2 ! q)],
                                  callers := callers s2 @
                                    [\<lparr>c_future = Some f, c_result = None\<rparr>]\<rparr>))))"

text \<open>The awaited future is done: \<open>wait_for\<close> hands its outcome to the caller.\<close>

definition caller_return :: "nat \<Rightarrow> request_queue \<Rightarrow> request_queue option" where
  "caller_return i s =
     (if i < length (callers s) \<and> c_result (callers s ! i) = None then
        (case c_future (callers s ! i) of
           None \<Rightarrow> None
         | Some f \<Rightarrow>
             (case futures s ! f of
                Pending \<Rightarrow> None
              | Result v \<Rightarrow>
                  Some (s\<lparr>callers := (callers s)[i := (callers s ! i)\<lparr>c_result := Some (Returns v)\<rparr>]\<rparr>)
              | Exception e \<Rightarrow>
                  Some (s\<lparr>callers := (callers s)[i := (callers s ! i)\<lparr>c_result := Some (Raises e)\<rparr>]\<rparr>)
              | Cancelled \<Rightarrow>
                  Some (s\<lparr>callers := (callers s)[i := (callers s ! i)\<lparr>c_result := Some RaisesCancelled\<rparr>]\<rparr>)))
      else None)"

text \<open>\<open>wait_for(future, timeout=self.queue_timeout)\<close> times out while the future is
  pending: it cancels the future, and \<open>enqueue_request\<close> raises \<open>TimeoutError\<close>.\<close>

definition caller_timeout :: "nat \<Rightarrow> request_queue \<Rightarrow> request_queue option" where
  "caller_timeout i s =
     (if i < length (callers s) \<and> c_result (callers s ! i) = None then
        (case c_future (callers s ! i) of
           None \<Rightarrow> None
         | Some f \<Rightarrow>
             (if futures s ! f = Pending then
                Some (s\<lparr>futures := (futures s)[f := Cancelled],
                         callers := (callers s)[i := (callers s ! i)\<lparr>c_result := Some (Raises TimeoutError)\<rparr>]\<rparr>)
              else None))
      else None)"

subsection \<open>\<open>_process_queue\<close>\<close>

text \<open>The first run of the task: the two dictionary reads before the \<open>try\<close> (a missing
  key ends the task with \<open>KeyError\<close>), then \<open>next_sequence = 0\<close> and the first
  \<open>queue.get()\<close>.\<close>

definition proc_start :: "nat \<Rightarrow> request_queue \<Rightarrow> request_queue option" where
  "proc_start p s =
     (if p < length (procs s) \<and> p_pc (procs s ! p) = PNew \<and> \<not> must_cancel (procs s ! p) then
        (let P = procs s ! p
         in case (queues s (p_conversation P), pending_requests s (p_conversation P)) of
              (Some q, Some a) \<Rightarrow>
                Some (s\<lparr>procs := (procs s)[p := P\<lparr>p_queue := q, p_pending := a,
                                                   next_sequence := 0, p_pc := PGet\<rparr>]\<rparr>)
            | _ \<Rightarrow> Some (s\<lparr>procs := (procs s)[p := P\<lparr>p_pc := PDone\<rparr>]\<rparr>))
      else None)"

text \<open>The test of \<open>while next_sequence in pending\<close>: when it holds, the request is popped
  and the processor goes for the semaphore; when it fails, the processor is back at
  \<open>queue.get()\<close>.\<close>

definition loop_head :: "nat \<Rightarrow> request_queue \<Rightarrow> request_queue" where
  "loop_head p s =
     (let P = procs s ! p; pending = pending_objs s ! p_pending P
      in case pending (next_sequence P) of
           Some r \<Rightarrow>
             s\<lparr>pending_objs := (pending_objs s)[p_pending P := pending(next_sequence P := None)],
               procs := (procs s)[p := P\<lparr>next_request := Some r, p_pc := PSem\<rparr>]\<rparr>
         | None \<Rightarrow> s\<lparr>procs := (procs s)[p := P\<lparr>p_pc := PGet\<rparr>]\<rparr>)"

text \<open>\<open>queue.get()\<close> returns an item: it is stored in \<open>pending\<close> under its sequence
  number, and the inner loop is entered.\<close>

definition proc_get :: "nat \<Rightarrow> request_queue \<Rightarrow> request_queue option" where
  "proc_get p s =
     (if p < length (procs s) \<and> p_pc (procs s ! p) = PGet \<and> \<not> must_cancel (procs s ! p) then
        (let P = procs s ! p; q = queue_objs s ! p_queue P
         in case items q of
              [] \<Rightarrow> None
            | request # rest \<Rightarrow>
                Some (loop_head p
                  (s\<lparr>queue_objs := (queue_objs s)[p_queue P := q\<lparr>items := rest\<rparr>],
                     pending_objs := (pending_objs s)[p_pending P :=
                        (pending_objs s ! p_pending P)(sequence_number request \<mapsto> request)]\<rparr>)))
      else None)"

text \<open>A slot of the semaphore is taken and the task of \<open>next_request\<close> begins.\<close>

definition proc_acquire :: "nat \<Rightarrow> request_queue \<Rightarrow> request_queue option" where
  "proc_acquire p s =
     (if p < length (procs s) \<and> p_pc (procs s ! p) = PSem \<and> \<not> must_cancel (procs s ! p)
         \<and> semaphore s > 0 then
        (case next_request (procs s ! p) of
           None \<Rightarrow> None
         | Some r \<Rightarrow>
             Some (s\<lparr>semaphore := semaphore s - 1,
                      procs := (procs s)[p := (procs s ! p)\<lparr>p_pc := PRun\<rparr>],
                      exec_log := exec_log s @ [(p, r)]\<rparr>))
      else None)"

text \<open>The three handlers around the task: each writes to the future only
  \<open>if not next_request.future.done()\<close>.\<close>

definition set_outcome :: "nat \<Rightarrow> outcome \<Rightarrow> fut list \<Rightarrow> fut list" where
  "set_outcome f out fs =
     (if fs ! f = Pending then
        fs[f := (case out of
                   Returned v \<Rightarrow> Result v
                 | Raised e \<Rightarrow> Exception e
                 | TimedOut \<Rightarrow> Exception TimeoutError
                 | CancelledInside \<Rightarrow> Cancelled)]
      else fs)"

text \<open>After the semaphore block: \<open>queue.task_done()\<close>, which raises \<open>ValueError\<close> when the
  counter is zero (caught by the handler of the outer \<open>try\<close>, which returns to
  \<open>queue.get()\<close>), then \<open>next_sequence += 1\<close> and the loop test.\<close>

definition task_done :: "nat \<Rightarrow> request_queue \<Rightarrow> request_queue" where
  "task_done p s =
     (let P = procs s ! p; q = queue_objs s ! p_queue P
      in if unfinished_tasks q = 0 then s\<lparr>procs := (procs s)[p := P\<lparr>p_pc := PGet\<rparr>]\<rparr>
         else loop_head p
                (s\<lparr>queue_objs := (queue_objs s)[p_queue P :=
                                     q\<lparr>unfinished_tasks := unfinished_tasks q - 1\<rparr>],
                   procs := (procs s)[p := P\<lparr>next_sequence := next_sequence P + 1\<rparr>]\<rparr>))"

text \<open>
  The awaited task ends. A result, an exception or a timeout is written to the future,
  the slot is released and the loop goes on. \<open>CancelledError\<close> is not an \<open>Exception\<close>:
  it leaves the semaphore block and both loops and reaches the \<open>finally\<close> block.
\<close>

definition proc_finish :: "nat \<Rightarrow> outcome \<Rightarrow> request_queue \<Rightarrow> request_queue option" where
  "proc_finish p out s =
     (if p < length (procs s) \<and> p_pc (procs s ! p) = PRun \<and> \<not> must_cancel (procs s ! p) then
        (case next_request (procs s ! p) of
           None \<Rightarrow> None
         | Some r \<Rightarrow>
             (case out of
                CancelledInside \<Rightarrow>
                  Some (s\<lparr>semaphore := semaphore s + 1,
                           procs := (procs s)[p := (procs s ! p)\<lparr>p_pc := PFinally\<rparr>]\<rparr>)
              | _ \<Rightarrow>
                  Some (task_done p
                    (s\<lparr>futures := set_outcome (future r) out (futures s),
                       semaphore := semaphore s + 1\<rparr>))))
      else None)"

text \<open>
  The task is resumed with a cancellation request: \<open>CancelledError\<close> is raised where it
  was suspended. A task that has not run yet ends at once; inside the loops the error
  reaches the \<open>finally\<close> block (releasing the slot when it was inside the semaphore);
  before the lock of the \<open>finally\<close> block it ends the task.
\<close>

definition proc_cancelled :: "nat \<Rightarrow> request_queue \<Rightarrow> request_queue option" where
  "proc_cancelled p s =
     (if p < length (procs s) \<and> must_cancel (procs s ! p) then
        (let P = (procs s ! p)\<lparr>must_cancel := False\<rparr>
         in case p_pc P of
              PNew \<Rightarrow> Some (s\<lparr>procs := (procs s)[p := P\<lparr>p_pc := PDone\<rparr>]\<rparr>)
            | PGet \<Rightarrow> Some (s\<lparr>procs := (procs s)[p := P\<lparr>p_pc := PFinally\<rparr>]\<rparr>)
            | PSem \<Rightarrow> Some (s\<lparr>procs := (procs s)[p := P\<lparr>p_pc := PFinally\<rparr>]\<rparr>)
            | PRun \<Rightarrow> Some (s\<lparr>semaphore := semaphore s + 1,
                              procs := (procs s)[p := P\<lparr>p_pc := PFinally\<rparr>]\<rparr>)
            | PFinally \<Rightarrow> Some (s\<lparr>procs := (procs s)[p := P\<lparr>p_pc := PDone\<rparr>]\<rparr>)
            | PDone \<Rightarrow> None)
      else None)"

text \<open>The \<open>finally\<close> block, under the lock: the key's three entries are deleted when the
  key is in \<open>self.queues\<close> and the queue registered for it is empty.\<close>

definition proc_teardown :: "nat \<Rightarrow> request_queue \<Rightarrow> request_queue option" where
  "proc_teardown p s =
     (if p < length (procs s) \<and> p_pc (procs s ! p) = PFinally \<and> \<not> must_cancel (procs s ! p)
         \<and> \<not> lock_held s then
        (let P = procs s ! p; cid = p_conversation P;
             s1 = (case queues s cid of
                     None \<Rightarrow> s
                   | Some q \<Rightarrow>
                       if items (queue_objs s ! q) = [] then
                         s\<lparr>queues := (queues s)(cid := None),
                           sequence_counters := (sequence_counters s)(cid := None),
                           pending_requests := (pending_requests s)(cid := None)\<rparr>
                       else s)
         in Some (s1\<lparr>procs := (procs s1)[p := P\<lparr>p_pc := PDone\<rparr>]\<rparr>))
      else None)"

subsection \<open>\<open>cleanup\<close>\<close>

text \<open>\<open>task.cancel()\<close> for every task of the list that is not done.\<close>

fun cancel_all :: "nat list \<Rightarrow> processor list \<Rightarrow> processor list" where
  "cancel_all [] ps = ps"
| "cancel_all (t # ts) ps =
     cancel_all ts (if t < length ps \<and> p_pc (ps ! t) \<noteq> PDone
                    then ps[t := (ps ! t)\<lparr>must_cancel := True\<rparr>] else ps)"

definition clear_all :: "request_queue \<Rightarrow> request_queue" where
  "clear_all s = s\<lparr>queues := Map.empty, tasks := [], sequence_counters := Map.empty,
                    pending_requests := Map.empty\<rparr>"

text \<open>\<open>cleanup\<close> takes the lock and cancels the tasks. With no task registered it clears
  the dictionaries and returns at once; otherwise it waits in \<open>gather\<close>, holding the
  lock.\<close>

definition cleanup_begin :: "request_queue \<Rightarrow> request_queue option" where
  "cleanup_begin s =
     (if lock_held s then None
      else
        (let ts = tasks s; s1 = s\<lparr>procs := cancel_all ts (procs s)\<rparr>
         in if ts \<noteq> [] then
              Some (s1\<lparr>lock_held := True,
                        cleaners := cleaners s1 @ [\<lparr>cl_tasks = ts, cl_done = False\<rparr>]\<rparr>)
            else
              Some ((clear_all s1)\<lparr>cleaners := cleaners s1 @ [\<lparr>cl_tasks = ts, cl_done = True\<rparr>]\<rparr>)))"

text \<open>\<open>gather\<close> returns once every task of the list is done; \<open>cleanup\<close> clears the
  dictionaries, releases the lock and returns.\<close>

definition cleanup_end :: "nat \<Rightarrow> request_queue \<Rightarrow> request_queue option" where
  "cleanup_end j s =
     (if j < length (cleaners s) \<and> \<not> cl_done (cleaners s ! j)
         \<and> list_all (\<lambda>t. t < length (procs s) \<and> p_pc (procs s ! t) = PDone) (cl_tasks (cleaners s ! j)) then
        Some ((clear_all s)\<lparr>lock_held := False,
                cleaners := (cleaners s)[j := (cleaners s ! j)\<lparr>cl_done := True\<rparr>]\<rparr>)
      else None)"

subsection \<open>\<open>acquire\<close>\<close>

text \<open>The context manager: count under the lock, take a slot, run the body, release the
  slot, uncount under the lock.\<close>

definition acquire_enter :: "request_queue \<Rightarrow> request_queue option" where
  "acquire_enter s =
     (if lock_held s then None
      else Some (s\<lparr>active_requests := active_requests s + 1,
                    acquirers := acquirers s @ [ASem]\<rparr>))"

definition acquire_slot :: "nat \<Rightarrow> request_queue \<Rightarrow> request_queue option" where
  "acquire_slot a s =
     (if a < length (acquirers s) \<and> acquirers s ! a = ASem \<and> semaphore s > 0 then
        Some (s\<lparr>semaphore := semaphore s - 1, acquirers := (acquirers s)[a := AHeld]\<rparr>)
      else None)"

definition acquire_exit :: "nat \<Rightarrow> request_queue \<Rightarrow> request_queue option" where
  "acquire_exit a s =
     (if a < length (acquirers s) \<and> acquirers s ! a = AHeld then
        Some (s\<lparr>semaphore := semaphore s + 1, acquirers := (acquirers s)[a := ALeave]\<rparr>)
      else None)"

definition acquire_leave :: "nat \<Rightarrow> request_queue \<Rightarrow> request_queue option" where
  "acquire_leave a s =
     (if a < length (acquirers s) \<and> acquirers s ! a = ALeave \<and> \<not> lock_held s then
        Some (s\<lparr>active_requests := active_requests s - 1, acquirers := (acquirers s)[a := ADone]\<rparr>)
      else None)"

subsection \<open>The transition system\<close>

datatype event =
    Enqueue uuid nat
  | CallerReturn nat
  | CallerTimeout nat
  | ProcStart nat
  | ProcGet nat
  | ProcAcquire nat
  | ProcFinish nat outcome
  | ProcCancelled nat
  | ProcTeardown nat
  | CleanupBegin
  | CleanupEnd nat
  | AcquireEnter
  | AcquireSlot nat
  | AcquireExit nat
  | AcquireLeave nat

fun step :: "event \<Rightarrow> request_queue \<Rightarrow> request_queue option" where
  "step (Enqueue cid t) s = enqueue_request cid t s"
| "step (CallerReturn i) s = caller_return i s"
| "step (CallerTimeout i) s = caller_timeout i s"
| "step (ProcStart p) s = proc_start p s"
| "step (ProcGet p) s = proc_get p s"
| "step (ProcAcquire p) s = proc_acquire p s"
| "step (ProcFinish p out) s = proc_finish p out s"
| "step (ProcCancelled p) s = proc_cancelled p s"
| "step (ProcTeardown p) s = proc_teardown p s"
| "step CleanupBegin s = cleanup_begin s"
| "step (CleanupEnd j) s = cleanup_end j s"
| "step AcquireEnter s = acquire_enter s"
| "step (AcquireSlot a) s = acquire_slot a s"
| "step (AcquireExit a) s = acquire_exit a s"
| "step (AcquireLeave a) s = acquire_leave a s"

text \<open>A run: the events in order; \<open>None\<close> when one of them cannot happen.\<close>

fun run :: "event list \<Rightarrow> request_queue \<Rightarrow> request_queue option" where
  "run [] s = Some s"
| "run (e # es) s = (case step e s of None \<Rightarrow> None | Some s' \<Rightarrow> run es s')"

subsection \<open>Observations on states and events\<close>

text \<open>The events that are the two lock sections of \<open>acquire\<close>.\<close>

fun counts_active :: "event \<Rightarrow> bool" where
  "counts_active AcquireEnter = True"
| "counts_active (AcquireLeave a) = True"
| "counts_active _ = False"

text \<open>The number of processors that are inside the semaphore awaiting a task, and the
  number of \<open>acquire\<close> users inside the body.\<close>

definition running :: "request_queue \<Rightarrow> nat" where
  "running s = length (filter (\<lambda>P. p_pc P = PRun) (procs s))"

definition holding :: "request_queue \<Rightarrow> nat" where
  "holding s = length (filter (\<lambda>a. a = AHeld) (acquirers s))"

text \<open>The accounting of the semaphore: every slot is free, or held by one running
  processor, or held by one \<open>acquire\<close> user.\<close>

definition gate_inv :: "int \<Rightarrow> request_queue \<Rightarrow> bool" where
  "gate_inv mc s \<longleftrightarrow> max_concurrent s = mc \<and> 0 \<le> semaphore s \<and>
     semaphore s + int (running s) + int (holding s) = mc"

subsection \<open>Invariants of the per-key ordering\<close>

text \<open>The sequence numbers of the requests that processor \<open>p\<close> has begun to execute, in
  the order in which it began them.\<close>

definition log_seqs :: "request_queue \<Rightarrow> nat \<Rightarrow> nat list" where
  "log_seqs s p = map (\<lambda>e. sequence_number (snd e)) (filter (\<lambda>e. fst e = p) (exec_log s))"

definition in_loop :: "proc_pc \<Rightarrow> bool" where
  "in_loop c \<longleftrightarrow> c = PGet \<or> c = PSem \<or> c = PRun"

definition has_request :: "proc_pc \<Rightarrow> bool" where
  "has_request c \<longleftrightarrow> c = PSem \<or> c = PRun"

text \<open>The queue and the pending dictionary of a key are created together and get the
  same address; no address is registered for two keys.\<close>

definition reg_ok :: "request_queue \<Rightarrow> bool" where
  "reg_ok s \<longleftrightarrow> pending_requests s = queues s \<and>
     length (pending_objs s) = length (queue_objs s) \<and>
     (\<forall>k k' q. queues s k = Some q \<and> queues s k' = Some q \<longrightarrow> k = k')"

text \<open>A registered key has a counter; the requests in its queue and in its pending
  dictionary are requests of the key, numbered below the counter, and the dictionary
  holds each under its own sequence number.\<close>

definition key_ok :: "request_queue \<Rightarrow> bool" where
  "key_ok s \<longleftrightarrow>
     (\<forall>k q. queues s k = Some q \<longrightarrow>
        q < length (queue_objs s) \<and>
        (\<exists>c. sequence_counters s k = Some c \<and>
           (\<forall>r \<in> set (items (queue_objs s ! q)). conversation_id r = k \<and> sequence_number r < c) \<and>
           (\<forall>n r. (pending_objs s ! q) n = Some r \<longrightarrow>
                  conversation_id r = k \<and> sequence_number r = n \<and> n < c)))"

text \<open>
  A processor that is not done has its key registered. Before its first run the queue's
  \<open>unfinished_tasks\<close> equals the counter; inside the loop the processor works on the
  registered objects and \<open>unfinished_tasks + next_sequence\<close> equals the counter; while it
  holds a request, that is the request numbered \<open>next_sequence\<close>.
\<close>

definition proc_ok :: "request_queue \<Rightarrow> processor \<Rightarrow> bool" where
  "proc_ok s P \<longleftrightarrow>
     (p_pc P \<noteq> PDone \<longrightarrow>
        (\<exists>q c. queues s (p_conversation P) = Some q \<and>
               sequence_counters s (p_conversation P) = Some c \<and>
               (p_pc P = PNew \<longrightarrow> unfinished_tasks (queue_objs s ! q) = c) \<and>
               (in_loop (p_pc P) \<longrightarrow>
                  p_queue P = q \<and> p_pending P = q \<and>
                  unfinished_tasks (queue_objs s ! q) + next_sequence P = c) \<and>
               (has_request (p_pc P) \<longrightarrow>
                  next_sequence P < c \<and>
                  (\<exists>r. next_request P = Some r \<and> sequence_number r = next_sequence P \<and>
                       conversation_id r = p_conversation P))))"

definition procs_ok :: "request_queue \<Rightarrow> bool" where
  "procs_ok s \<longleftrightarrow> (\<forall>p < length (procs s). proc_ok s (procs s ! p))"

text \<open>Of two processors of one key, one is done.\<close>

definition unique_ok :: "request_queue \<Rightarrow> bool" where
  "unique_ok s \<longleftrightarrow>
     (\<forall>p p'. p < length (procs s) \<and> p' < length (procs s) \<and> p \<noteq> p' \<and>
             p_conversation (procs s ! p) = p_conversation (procs s ! p') \<longrightarrow>
             p_pc (procs s ! p) = PDone \<or> p_pc (procs s ! p') = PDone)"

text \<open>Every processor that is not done is in the task registry; a \<open>cleanup\<close> that has
  not returned holds the lock, its task list is the registry, and it is the only one.\<close>

definition sched_ok :: "request_queue \<Rightarrow> bool" where
  "sched_ok s \<longleftrightarrow>
     (\<forall>p < length (procs s). p_pc (procs s ! p) \<noteq> PDone \<longrightarrow> p \<in> set (tasks s)) \<and>
     (\<forall>j < length (cleaners s). \<not> cl_done (cleaners s ! j) \<longrightarrow>
        lock_held s \<and> cl_tasks (cleaners s ! j) = tasks s \<and>
        (\<forall>j' < length (cleaners s). \<not> cl_done (cleaners s ! j') \<longrightarrow> j' = j))"

text \<open>The log of a processor is \<open>0, 1, 2, ...\<close> up to where the processor stands, and
  every logged request is a request of the processor's key.\<close>

definition log_ok :: "request_queue \<Rightarrow> bool" where
  "log_ok s \<longleftrightarrow>
     (\<forall>e \<in> set (exec_log s).
        fst e < length (procs s) \<and> conversation_id (snd e) = p_conversation (procs s ! fst e)) \<and>
     (\<forall>p < length (procs s).
        log_seqs s p = [0 ..< length (log_seqs s p)] \<and>
        (p_pc (procs s ! p) = PNew \<longrightarrow> log_seqs s p = []) \<and>
        (p_pc (procs s ! p) = PGet \<or> p_pc (procs s ! p) = PSem \<longrightarrow>
           length (log_seqs s p) = next_sequence (procs s ! p)) \<and>
        (p_pc (procs s ! p) = PRun \<longrightarrow>
           length (log_seqs s p) = next_sequence (procs s ! p) + 1))"

definition fifo_inv :: "request_queue \<Rightarrow> bool" where
  "fifo_inv s \<longleftrightarrow> reg_ok s \<and> key_ok s \<and> procs_ok s \<and> unique_ok s \<and> sched_ok s \<and> log_ok s"

subsection \<open>A processor serving its pending requests\<close>

text \<open>The events by which processor \<open>p\<close> executes one request after the other, the
  tasks ending as the list of outcomes says.\<close>

fun serve :: "nat \<Rightarrow> outcome list \<Rightarrow> event list" where
  "serve p [] = []"
| "serve p (out # outs) = ProcAcquire p # ProcFinish p out # serve p outs"

subsection \<open>Example runs\<close>

text \<open>Three submissions to one key; the second arrives while the first is executed, the
  caller of the third gives up, and the second task raises.\<close>

definition fifo_demo :: "event list" where
  "fifo_demo = [Enqueue 7 100, Enqueue 7 101, ProcStart 0, ProcGet 0, ProcAcquire 0,
                Enqueue 7 102, ProcFinish 0 (Returned 1), ProcAcquire 0, CallerTimeout 2,
                ProcFinish 0 (Raised (TaskError 9)), ProcAcquire 0]"

text \<open>Three submissions to one key, after which the processor is executing the first.\<close>

definition three_queued :: "event list" where
  "three_queued = [Enqueue 7 100, Enqueue 7 101, Enqueue 7 102, ProcStart 0, ProcGet 0,
                   ProcAcquire 0]"

text \<open>A submission followed by \<open>cleanup\<close>; the processor task is cancelled before its
  first run in the first list, after it in the second.\<close>

definition cleanup_before_start :: "event list" where
  "cleanup_before_start = [Enqueue 7 100, CleanupBegin, ProcCancelled 0, CleanupEnd 0]"

definition cleanup_after_start :: "event list" where
  "cleanup_after_start = [Enqueue 7 100, ProcStart 0, CleanupBegin, ProcCancelled 0]"

text \<open>One submission, served to the end.\<close>

definition served_once :: "event list" where
  "served_once = [Enqueue 7 100, ProcStart 0, ProcGet 0, ProcAcquire 0,
                  ProcFinish 0 (Returned 5), CallerReturn 0]"

text \<open>One submission whose task ends with \<open>CancelledError\<close>.\<close>

definition task_cancelled :: "event list" where
  "task_cancelled = [Enqueue 7 100, ProcStart 0, ProcGet 0, ProcAcquire 0,
                     ProcFinish 0 CancelledInside]"

section \<open>Properties of the admission controller\<close>

lemma newer_than_twice:
  "t \<le> t' \<Longrightarrow> newer_than (t' - w) (newer_than (t - w) tss) = newer_than (t' - w) tss"
  unfolding newer_than_def by (induction tss) auto



lemma start_fields:
  "rate_limit (start s) = rate_limit s"
  "time_window (start s) = time_window s"
  "requests (start s) = requests s"
  by (simp_all add: start_def)










lemma agree_after_window:
  "agree_after c a b \<Longrightarrow> time_window a = time_window b"
  by (simp add: agree_after_def)




subsection \<open>Admission decision\<close>



subsection \<open>Remaining capacity\<close>



subsection \<open>The window invariant\<close>

lemma within_window_newer_than:
  "list_all (\<lambda>ts. ts \<le> now) tss \<Longrightarrow> within_window now w (newer_than (now - w) tss)"
  unfolding within_window_def newer_than_def by (induction tss) auto

text \<open>
  Claim C9, as stated, asks that after every \<open>check\<close>, \<open>remaining\<close> or sweep each key's
  stored timestamps lie in \<open>[now - window, now]\<close>. Pruning is lazy: \<open>check\<close> and
  \<open>remaining\<close> prune only the key they are called with, so another key keeps its stale
  timestamps until it is used or swept. Here key \<open>a\<close> holds the timestamp \<open>0\<close>, the
  window is one second, and \<open>check\<close> of key \<open>b\<close> at time \<open>10\<close> leaves it there.
\<close>

theorem stale_other_key_counterexample:
  "fst (check_rate_limit ''b'' 10 stale_state) = Inr () \<and>
   requests (snd (check_rate_limit ''b'' 10 stale_state)) ''a'' = Some [0] \<and>
   \<not> within_window 10 (time_window stale_state)
        (stored_for (snd (check_rate_limit ''b'' 10 stale_state)) ''a'')"
  by (simp add: check_rate_limit_def stale_state_def Let_def start_def newer_than_def
        stored_for_def within_window_def)

text \<open>
  Claim C9, amended. Let the window be non-negative and no stored timestamp be later than
  \<open>now\<close>. After \<open>check(key)\<close> or \<open>remaining(key)\<close> at \<open>now\<close>, the timestamps stored for
  that key lie in \<open>[now - window, now]\<close>, and after a successful \<open>check\<close> their number
  does not exceed \<open>rate_limit\<close>. After a sweep at \<open>now\<close> this holds for every key, and
  the sweep keeps a key exactly when some timestamp of it is newer than \<open>now - window\<close>.
\<close>

theorem window_invariant_of_touched_key:
  assumes w: "0 \<le> time_window s"
    and past: "\<forall>k. list_all (\<lambda>ts. ts \<le> now) (stored_for s k)"
  shows "within_window now (time_window s) (stored_for (snd (check_rate_limit key now s)) key)
     \<and> (fst (check_rate_limit key now s) = Inr () \<longrightarrow>
          int (length (stored_for (snd (check_rate_limit key now s)) key)) \<le> rate_limit s)
     \<and> within_window now (time_window s)
          (stored_for (snd (get_remaining_requests key now s)) key)
     \<and> (\<forall>k. within_window now (time_window s) (stored_for (periodic_cleanup now s) k))
     \<and> (\<forall>k. requests (periodic_cleanup now s) k =
             (if newer_than (now - time_window s) (stored_for s k) = [] then None
              else Some (newer_than (now - time_window s) (stored_for s k))))"
proof -
  have p: "list_all (\<lambda>ts. ts \<le> now) (stored_for s k)" for k using past by simp
  have ww: "within_window now w' (newer_than (now - w') (stored_for s k))" for k w'
    using p by (rule within_window_newer_than)
  have c1: "within_window now (time_window s)
              (stored_for (snd (check_rate_limit key now s)) key)"
    using ww [where k=key and w'="time_window s"] w
    by (simp add: check_rate_limit_def Let_def stored_for_def start_fields within_window_def)
  have c2: "fst (check_rate_limit key now s) = Inr () \<longrightarrow>
          int (length (stored_for (snd (check_rate_limit key now s)) key)) \<le> rate_limit s"
    by (simp add: check_rate_limit_def Let_def stored_for_def start_fields)
  have c3: "within_window now (time_window s)
          (stored_for (snd (get_remaining_requests key now s)) key)"
    using ww [where k=key and w'="time_window s"]
    by (cases "requests s key")
       (simp_all add: get_remaining_requests_def Let_def stored_for_def start_fields
          within_window_def)
  have c4: "within_window now (time_window s) (stored_for (periodic_cleanup now s) k)" for k
    using ww [where k=k and w'="time_window s"]
    by (cases "requests s k")
       (simp_all add: periodic_cleanup_def Let_def stored_for_def within_window_def)
  have c5: "requests (periodic_cleanup now s) k =
             (if newer_than (now - time_window s) (stored_for s k) = [] then None
              else Some (newer_than (now - time_window s) (stored_for s k)))" for k
    by (cases "requests s k")
       (simp_all add: periodic_cleanup_def Let_def stored_for_def newer_than_def)
  from c1 c2 c3 c4 c5 show ?thesis by blast
qed

theorem window_invariant_of_touched_key_witness:
  "within_window 10 1 (stored_for (snd (check_rate_limit ''b'' 10 stale_state)) ''b'') \<and>
   stored_for (snd (check_rate_limit ''b'' 10 stale_state)) ''b'' = [10] \<and>
   requests (periodic_cleanup 10 stale_state) ''a'' = None"
proof -
  have w: "0 \<le> time_window stale_state" by (simp add: stale_state_def)
  have past: "\<forall>k. list_all (\<lambda>ts. ts \<le> 10) (stored_for stale_state k)"
    by (simp add: stale_state_def stored_for_def)
  from window_invariant_of_touched_key [OF w past, of "''b''"] show ?thesis
    by (simp add: stale_state_def stored_for_def newer_than_def check_rate_limit_def Let_def
          start_def)
qed

section \<open>Properties of the ordering queue manager\<close>

text \<open>The definitions that evaluate a run on a concrete state.\<close>

lemmas step_defs = new_request_queue_def enqueue_request_def get_queue_def Let_def put_def
  new_processor_def proc_start_def proc_get_def loop_head_def proc_acquire_def
  proc_finish_def task_done_def set_outcome_def caller_timeout_def caller_return_def
  proc_cancelled_def proc_teardown_def cleanup_begin_def cleanup_end_def clear_all_def

subsection \<open>The \<open>active_requests\<close> counter\<close>

lemma active_get_queue: "active_requests (snd (get_queue cid s)) = active_requests s"
  by (simp add: get_queue_def Let_def split: option.splits)

lemma active_loop_head: "active_requests (loop_head p s) = active_requests s"
  by (simp add: loop_head_def Let_def split: option.splits)

lemma active_task_done: "active_requests (task_done p s) = active_requests s"
  by (simp add: task_done_def Let_def active_loop_head)

lemma active_enqueue:
  "enqueue_request cid t s = Some s' \<Longrightarrow> active_requests s' = active_requests s"
  using active_get_queue [of cid s]
  by (auto simp: enqueue_request_def Let_def split: if_splits option.splits prod.splits)

lemma active_step:
  "step ev s = Some s' \<Longrightarrow> \<not> counts_active ev \<Longrightarrow> active_requests s' = active_requests s"
proof (cases ev)
  case (Enqueue cid t)
  then show "step ev s = Some s' \<Longrightarrow> ?thesis" by (simp add: active_enqueue)
next
  case (ProcFinish p out)
  then show "step ev s = Some s' \<Longrightarrow> ?thesis"
    by (cases out)
       (auto simp: proc_finish_def active_task_done split: if_splits option.splits)
qed (auto simp: caller_return_def caller_timeout_def proc_start_def proc_get_def
       proc_acquire_def proc_cancelled_def proc_teardown_def cleanup_begin_def cleanup_end_def
       acquire_slot_def acquire_exit_def clear_all_def Let_def active_loop_head
     split: if_splits option.splits fut.splits list.splits proc_pc.splits)

lemma active_run:
  "run evs s = Some s' \<Longrightarrow> list_all (\<lambda>ev. \<not> counts_active ev) evs \<Longrightarrow>
   active_requests s' = active_requests s"
proof (induction evs arbitrary: s)
  case Nil
  then show ?case by simp
next
  case (Cons ev evs)
  then obtain s1 where s1: "step ev s = Some s1" and r: "run evs s1 = Some s'"
    by (auto split: option.splits)
  from Cons.prems have "\<not> counts_active ev" "list_all (\<lambda>ev. \<not> counts_active ev) evs"
    by simp_all
  with Cons.IH [OF r] active_step [OF s1] show ?case by simp
qed

text \<open>
  Claim C10. A call of \<open>enqueue_request\<close> leaves \<open>active_requests\<close> unchanged, and so does
  every step of the system other than the two lock sections of \<open>acquire\<close>, which add one
  and subtract one; so after any run without \<open>acquire\<close> the counter, and with it
  \<open>get_queue_length\<close> and \<open>is_full\<close>, is what it was, whatever was submitted or executed.
  Whenever \<open>is_full\<close> returns, it returns whether \<open>active_requests >= max_concurrent\<close>.
\<close>

theorem active_requests_only_by_acquire:
  "(enqueue_request cid t s = Some s1 \<longrightarrow> active_requests s1 = active_requests s)
   \<and> (step ev s = Some s2 \<and> \<not> counts_active ev \<longrightarrow> active_requests s2 = active_requests s)
   \<and> (run evs s = Some s3 \<and> list_all (\<lambda>ev. \<not> counts_active ev) evs \<longrightarrow>
         active_requests s3 = active_requests s)
   \<and> (acquire_enter s = Some s4 \<longrightarrow> active_requests s4 = active_requests s + 1)
   \<and> (acquire_leave a s = Some s5 \<longrightarrow> active_requests s5 = active_requests s - 1)
   \<and> (\<not> lock_held s \<longrightarrow> is_full s = Some (active_requests s \<ge> max_concurrent s)
                           \<and> get_queue_length s = Some (active_requests s))
   \<and> (lock_held s \<longrightarrow> is_full s = None \<and> get_queue_length s = None)"
  using active_enqueue [of cid t s s1] active_step [of ev s s2] active_run [of evs s s3]
  by (auto simp: acquire_enter_def acquire_leave_def is_full_def get_queue_length_def
           split: if_splits)

theorem active_requests_only_by_acquire_witness:
  "run [Enqueue 7 100, ProcStart 0, ProcGet 0, ProcAcquire 0] (the (new_request_queue 1))
     \<noteq> None \<and>
   active_requests
     (the (run [Enqueue 7 100, ProcStart 0, ProcGet 0, ProcAcquire 0]
             (the (new_request_queue 1)))) = 0 \<and>
   is_full (the (new_request_queue 1)) = Some False"
  using active_requests_only_by_acquire
    [of 7 100 "the (new_request_queue 1)" "the (enqueue_request 7 100 (the (new_request_queue 1)))"
        "Enqueue 7 100" "the (enqueue_request 7 100 (the (new_request_queue 1)))"
        "[Enqueue 7 100, ProcStart 0, ProcGet 0, ProcAcquire 0]"
        "the (run [Enqueue 7 100, ProcStart 0, ProcGet 0, ProcAcquire 0]
                (the (new_request_queue 1)))"]
  by (simp add: new_request_queue_def enqueue_request_def get_queue_def Let_def put_def
        new_processor_def proc_start_def proc_get_def loop_head_def proc_acquire_def
        is_full_def get_queue_length_def)

subsection \<open>The concurrency gate\<close>

lemma count_update:
  "i < length xs \<Longrightarrow>
   int (length (filter Q (xs[i := y]))) =
   int (length (filter Q xs)) + (if Q y then 1 else 0) - (if Q (xs ! i) then 1 else 0)"
proof (induction xs arbitrary: i)
  case Nil
  then show ?case by simp
next
  case (Cons x xs)
  show ?case
  proof (cases i)
    case 0
    then show ?thesis by simp
  next
    case (Suc j)
    with Cons.prems have "j < length xs" by simp
    from Cons.IH [OF this] Suc show ?thesis by (auto split: if_splits)
  qed
qed

lemma running_update:
  "p < length (procs s) \<Longrightarrow> procs s' = (procs s)[p := P'] \<Longrightarrow>
   int (running s') = int (running s) + (if p_pc P' = PRun then 1 else 0)
                      - (if p_pc (procs s ! p) = PRun then 1 else 0)"
  unfolding running_def by (simp add: count_update)

lemma holding_update:
  "a < length (acquirers s) \<Longrightarrow> acquirers s' = (acquirers s)[a := x] \<Longrightarrow>
   int (holding s') = int (holding s) + (if x = AHeld then 1 else 0)
                      - (if acquirers s ! a = AHeld then 1 else 0)"
  unfolding holding_def by (simp add: count_update)

lemma cancel_all_length [simp]: "length (cancel_all ts ps) = length ps"
  by (induction ts arbitrary: ps) auto

lemma cancel_all_nth:
  "i < length ps \<Longrightarrow>
   cancel_all ts ps ! i =
     (if i \<in> set ts \<and> p_pc (ps ! i) \<noteq> PDone then (ps ! i)\<lparr>must_cancel := True\<rparr> else ps ! i)"
proof (induction ts arbitrary: ps)
  case Nil
  then show ?case by simp
next
  case (Cons t ts)
  then show ?case by (auto simp: nth_list_update)
qed

lemma cancel_all_pcs: "map p_pc (cancel_all ts ps) = map p_pc ps"
  by (rule nth_equalityI) (simp_all add: cancel_all_nth)

lemma filter_pc_map:
  "length (filter (\<lambda>P. p_pc P = c) ps) = length (filter (\<lambda>x. x = c) (map p_pc ps))"
  by (induction ps) auto

lemma running_cancel_all:
  "procs s' = cancel_all ts (procs s) \<Longrightarrow> running s' = running s"
  unfolding running_def by (simp add: filter_pc_map cancel_all_pcs)

text \<open>What the loop test and \<open>task_done\<close> do to the state, as far as the gate is
  concerned: they rewrite the processor's own entry and leave it outside \<open>PRun\<close>.\<close>

lemma loop_head_gate:
  "\<exists>P'. procs (loop_head p s) = (procs s)[p := P'] \<and> p_pc P' \<noteq> PRun \<and>
        semaphore (loop_head p s) = semaphore s \<and> acquirers (loop_head p s) = acquirers s \<and>
        max_concurrent (loop_head p s) = max_concurrent s"
  by (auto simp: loop_head_def Let_def split: option.splits)

lemma task_done_gate:
  "\<exists>P'. procs (task_done p s) = (procs s)[p := P'] \<and> p_pc P' \<noteq> PRun \<and>
        semaphore (task_done p s) = semaphore s \<and> acquirers (task_done p s) = acquirers s \<and>
        max_concurrent (task_done p s) = max_concurrent s"
proof (cases "unfinished_tasks (queue_objs s ! p_queue (procs s ! p)) = 0")
  case True
  then show ?thesis by (auto simp: task_done_def Let_def)
next
  case False
  let ?s1 = "s\<lparr>queue_objs := (queue_objs s)[p_queue (procs s ! p) :=
                 (queue_objs s ! p_queue (procs s ! p))
                   \<lparr>unfinished_tasks := unfinished_tasks (queue_objs s ! p_queue (procs s ! p)) - 1\<rparr>],
               procs := (procs s)[p := (procs s ! p)\<lparr>next_sequence := next_sequence (procs s ! p) + 1\<rparr>]\<rparr>"
  from False have td: "task_done p s = loop_head p ?s1"
    by (simp add: task_done_def Let_def)
  from loop_head_gate [of p ?s1] show ?thesis
    unfolding td by auto
qed


lemma gate_inv_eq:
  "procs s' = procs s \<Longrightarrow> acquirers s' = acquirers s \<Longrightarrow> semaphore s' = semaphore s \<Longrightarrow>
   max_concurrent s' = max_concurrent s \<Longrightarrow> gate_inv mc s \<Longrightarrow> gate_inv mc s'"
  by (simp add: gate_inv_def running_def holding_def)

lemma running_append_new:
  "procs s' = procs s @ [new_processor cid] \<Longrightarrow> running s' = running s"
  by (simp add: running_def new_processor_def)

lemma gate_get_queue:
  "gate_inv mc s \<Longrightarrow> gate_inv mc (snd (get_queue cid s))"
  by (cases "queues s cid")
     (simp_all add: get_queue_def Let_def gate_inv_def holding_def running_def new_processor_def)

lemma gate_enqueue:
  assumes "enqueue_request cid t s = Some s'" and "gate_inv mc s"
  shows "gate_inv mc s'"
proof -
  obtain q s1 where g: "get_queue cid s = (q, s1)" by (cases "get_queue cid s")
  from gate_get_queue [OF assms(2), of cid] g have "gate_inv mc s1" by simp
  moreover from assms(1) g
  have "procs s' = procs s1 \<and> acquirers s' = acquirers s1 \<and> semaphore s' = semaphore s1 \<and>
        max_concurrent s' = max_concurrent s1"
    by (auto simp: enqueue_request_def Let_def split: if_splits option.splits)
  ultimately show ?thesis by (blast intro: gate_inv_eq)
qed

lemma gate_proc_update:
  assumes "gate_inv mc s" and "p < length (procs s)" and "procs s' = (procs s)[p := P']"
    and "acquirers s' = acquirers s" and "max_concurrent s' = max_concurrent s"
    and "semaphore s' = semaphore s + (if p_pc (procs s ! p) = PRun then 1 else 0)
                                     - (if p_pc P' = PRun then 1 else 0)"
    and "0 \<le> semaphore s'"
  shows "gate_inv mc s'"
  using assms running_update [OF assms(2,3)]
  by (auto simp: gate_inv_def holding_def split: if_splits)

lemma gate_proc_finish:
  assumes st: "proc_finish p out s = Some s'" and inv: "gate_inv mc s"
  shows "gate_inv mc s'"
proof -
  from st have p: "p < length (procs s)" and pc: "p_pc (procs s ! p) = PRun"
    and nc: "\<not> must_cancel (procs s ! p)"
    by (auto simp: proc_finish_def split: if_splits)
  from st obtain r where r: "next_request (procs s ! p) = Some r"
    by (auto simp: proc_finish_def split: if_splits option.splits)
  from inv have sem: "0 \<le> semaphore s" by (simp add: gate_inv_def)
  show ?thesis
  proof (cases "out = CancelledInside")
    case True
    with st p pc nc r have s': "s' = s\<lparr>semaphore := semaphore s + 1,
                           procs := (procs s)[p := (procs s ! p)\<lparr>p_pc := PFinally\<rparr>]\<rparr>"
      by (simp add: proc_finish_def)
    show ?thesis
      by (rule gate_proc_update [OF inv p, where P' = "(procs s ! p)\<lparr>p_pc := PFinally\<rparr>"])
         (use sem pc in \<open>simp_all add: s'\<close>)
  next
    case False
    let ?s1 = "s\<lparr>futures := set_outcome (future r) out (futures s), semaphore := semaphore s + 1\<rparr>"
    from False st p pc nc r have s': "s' = task_done p ?s1"
      by (cases out) (simp_all add: proc_finish_def)
    from task_done_gate [of p ?s1] obtain P' where
      "procs s' = (procs s)[p := P']" "p_pc P' \<noteq> PRun" "semaphore s' = semaphore s + 1"
      "acquirers s' = acquirers s" "max_concurrent s' = max_concurrent s"
      unfolding s' by auto
    with sem pc show ?thesis
      by (intro gate_proc_update [OF inv p, where P' = P']) simp_all
  qed
qed

lemma gate_proc_get:
  assumes st: "proc_get p s = Some s'" and inv: "gate_inv mc s"
  shows "gate_inv mc s'"
proof -
  from st have p: "p < length (procs s)" and pc: "p_pc (procs s ! p) = PGet"
    by (auto simp: proc_get_def split: if_splits)
  from st obtain s1 where s': "s' = loop_head p s1" and
    s1: "procs s1 = procs s" "semaphore s1 = semaphore s" "acquirers s1 = acquirers s"
        "max_concurrent s1 = max_concurrent s"
    by (auto simp: proc_get_def Let_def split: if_splits list.splits)
  from loop_head_gate [of p s1] obtain P' where
      "procs s' = (procs s)[p := P']" "p_pc P' \<noteq> PRun" "semaphore s' = semaphore s"
      "acquirers s' = acquirers s" "max_concurrent s' = max_concurrent s"
    unfolding s' using s1 by auto
  with inv pc show ?thesis
    by (intro gate_proc_update [OF inv p, where P' = P']) (simp_all add: gate_inv_def)
qed

lemma gate_proc_cancelled:
  assumes st: "proc_cancelled p s = Some s'" and inv: "gate_inv mc s"
  shows "gate_inv mc s'"
proof -
  from st have p: "p < length (procs s)"
    by (auto simp: proc_cancelled_def split: if_splits)
  from inv have sem: "0 \<le> semaphore s" by (simp add: gate_inv_def)
  from st p sem show ?thesis
    by (cases "p_pc (procs s ! p)")
       (auto simp: proc_cancelled_def Let_def split: if_splits
             intro!: gate_proc_update [OF inv p])
qed

lemma gate_step: "step ev s = Some s' \<Longrightarrow> gate_inv mc s \<Longrightarrow> gate_inv mc s'"
proof (cases ev)
  case (Enqueue cid t)
  then show "step ev s = Some s' \<Longrightarrow> gate_inv mc s \<Longrightarrow> ?thesis" by (simp add: gate_enqueue)
next
  case (CallerReturn i)
  then show "step ev s = Some s' \<Longrightarrow> gate_inv mc s \<Longrightarrow> ?thesis"
    by (auto simp: caller_return_def split: if_splits option.splits fut.splits
             elim!: gate_inv_eq [rotated -1])
next
  case (CallerTimeout i)
  then show "step ev s = Some s' \<Longrightarrow> gate_inv mc s \<Longrightarrow> ?thesis"
    by (auto simp: caller_timeout_def split: if_splits option.splits
             elim!: gate_inv_eq [rotated -1])
next
  case (ProcStart p)
  assume st: "step ev s = Some s'" and inv: "gate_inv mc s"
  from st ProcStart have p: "p < length (procs s)" and pc: "p_pc (procs s ! p) = PNew"
    by (auto simp: proc_start_def split: if_splits)
  from inv have sem: "0 \<le> semaphore s" by (simp add: gate_inv_def)
  from st ProcStart p pc sem show ?thesis
    by (auto simp: proc_start_def Let_def split: if_splits option.splits
             intro!: gate_proc_update [OF inv p])
next
  case (ProcGet p)
  then show "step ev s = Some s' \<Longrightarrow> gate_inv mc s \<Longrightarrow> ?thesis" by (simp add: gate_proc_get)
next
  case (ProcAcquire p)
  assume st: "step ev s = Some s'" and inv: "gate_inv mc s"
  from st ProcAcquire have p: "p < length (procs s)" and pc: "p_pc (procs s ! p) = PSem"
    and sem: "0 < semaphore s"
    by (auto simp: proc_acquire_def split: if_splits)
  from st ProcAcquire p pc sem show ?thesis
    by (auto simp: proc_acquire_def Let_def split: if_splits option.splits
             intro!: gate_proc_update [OF inv p])
next
  case (ProcFinish p out)
  then show "step ev s = Some s' \<Longrightarrow> gate_inv mc s \<Longrightarrow> ?thesis" by (simp add: gate_proc_finish)
next
  case (ProcCancelled p)
  then show "step ev s = Some s' \<Longrightarrow> gate_inv mc s \<Longrightarrow> ?thesis"
    by (simp add: gate_proc_cancelled)
next
  case (ProcTeardown p)
  assume st: "step ev s = Some s'" and inv: "gate_inv mc s"
  from st ProcTeardown have p: "p < length (procs s)" and pc: "p_pc (procs s ! p) = PFinally"
    by (auto simp: proc_teardown_def split: if_splits)
  from inv have sem: "0 \<le> semaphore s" by (simp add: gate_inv_def)
  from st ProcTeardown p pc sem show ?thesis
    by (auto simp: proc_teardown_def Let_def split: if_splits option.splits
             intro!: gate_proc_update [OF inv p])
next
  case CleanupBegin
  assume st: "step ev s = Some s'" and inv: "gate_inv mc s"
  from st CleanupBegin have "procs s' = cancel_all (tasks s) (procs s)"
    "acquirers s' = acquirers s" "semaphore s' = semaphore s"
    "max_concurrent s' = max_concurrent s"
    by (auto simp: cleanup_begin_def clear_all_def Let_def split: if_splits)
  with inv running_cancel_all [of s' "tasks s" s] show ?thesis
    by (simp add: gate_inv_def holding_def)
next
  case (CleanupEnd j)
  then show "step ev s = Some s' \<Longrightarrow> gate_inv mc s \<Longrightarrow> ?thesis"
    by (auto simp: cleanup_end_def clear_all_def split: if_splits
             elim!: gate_inv_eq [rotated -1])
next
  case AcquireEnter
  then show "step ev s = Some s' \<Longrightarrow> gate_inv mc s \<Longrightarrow> ?thesis"
    by (auto simp: acquire_enter_def gate_inv_def running_def holding_def split: if_splits)
next
  case (AcquireSlot a)
  assume st: "step ev s = Some s'" and inv: "gate_inv mc s"
  from st AcquireSlot have a: "a < length (acquirers s)" and
    s': "s' = s\<lparr>semaphore := semaphore s - 1, acquirers := (acquirers s)[a := AHeld]\<rparr>"
    and pc: "acquirers s ! a = ASem" and sem: "0 < semaphore s"
    by (auto simp: acquire_slot_def split: if_splits)
  from holding_update [OF a, of s' AHeld] inv pc sem show ?thesis
    by (simp add: s' gate_inv_def running_def)
next
  case (AcquireExit a)
  assume st: "step ev s = Some s'" and inv: "gate_inv mc s"
  from st AcquireExit have a: "a < length (acquirers s)" and
    s': "s' = s\<lparr>semaphore := semaphore s + 1, acquirers := (acquirers s)[a := ALeave]\<rparr>"
    and pc: "acquirers s ! a = AHeld"
    by (auto simp: acquire_exit_def split: if_splits)
  from holding_update [OF a, of s' ALeave] inv pc show ?thesis
    by (simp add: s' gate_inv_def running_def)
next
  case (AcquireLeave a)
  assume st: "step ev s = Some s'" and inv: "gate_inv mc s"
  from st AcquireLeave have a: "a < length (acquirers s)" and
    s': "s' = s\<lparr>active_requests := active_requests s - 1, acquirers := (acquirers s)[a := ADone]\<rparr>"
    and pc: "acquirers s ! a = ALeave"
    by (auto simp: acquire_leave_def split: if_splits)
  from holding_update [OF a, of s' ADone] inv pc show ?thesis
    by (simp add: s' gate_inv_def running_def)
qed

lemma gate_run: "run evs s = Some s' \<Longrightarrow> gate_inv mc s \<Longrightarrow> gate_inv mc s'"
proof (induction evs arbitrary: s)
  case Nil
  then show ?case by simp
next
  case (Cons ev evs)
  then obtain s1 where s1: "step ev s = Some s1" and r: "run evs s1 = Some s'"
    by (auto split: option.splits)
  from Cons.IH [OF r gate_step [OF s1 Cons.prems(2)]] show ?case .
qed

lemma gate_new: "new_request_queue mc = Some s0 \<Longrightarrow> gate_inv mc s0"
  by (auto simp: new_request_queue_def gate_inv_def running_def holding_def split: if_splits)

lemma two_filtered:
  assumes "p < length xs" "q < length xs" "p \<noteq> q" "Q (xs ! p)" "Q (xs ! q)" "\<not> Q y"
  shows "2 \<le> length (filter Q xs)"
proof -
  have e: "xs[p := y] ! q = xs ! q" using assms by simp
  have "q < length (xs[p := y])" using assms by simp
  then have "xs[p := y] ! q \<in> set (xs[p := y])" by (rule nth_mem)
  with e assms have "xs[p := y] ! q \<in> set (filter Q (xs[p := y]))"
    by simp
  then have "0 < length (filter Q (xs[p := y]))"
    by (rule length_pos_if_in_set)
  then have "1 \<le> int (length (filter Q (xs[p := y])))" by linarith
  with count_update [OF assms(1), of Q y] assms
  have "2 \<le> int (length (filter Q xs))" by simp
  then show ?thesis by simp
qed

text \<open>
  Claim C5. In every state that a run reaches from a freshly constructed queue with
  \<open>max_concurrent = mc\<close>, at most \<open>mc\<close> processors are executing a task; each of them
  holds one slot of the semaphore (the slots are the free ones, those of the running
  processors and those of the \<open>acquire\<close> users). With \<open>mc = 1\<close> no two processors
  execute at the same time, whatever their keys.
\<close>

theorem concurrency_gate_bound:
  assumes "new_request_queue mc = Some s0" and "run evs s0 = Some s"
  shows "int (running s) \<le> mc
     \<and> semaphore s + int (running s) + int (holding s) = mc \<and> 0 \<le> semaphore s
     \<and> (mc = 1 \<longrightarrow>
          (\<forall>p q. p < length (procs s) \<and> q < length (procs s) \<and>
                 p_pc (procs s ! p) = PRun \<and> p_pc (procs s ! q) = PRun \<longrightarrow> p = q))"
proof -
  from gate_run [OF assms(2) gate_new [OF assms(1)]] have g: "gate_inv mc s" .
  then have le: "int (running s) \<le> mc" by (simp add: gate_inv_def)
  have "p = q" if "mc = 1" "p < length (procs s)" "q < length (procs s)"
    "p_pc (procs s ! p) = PRun" "p_pc (procs s ! q) = PRun" for p q
  proof (rule ccontr)
    assume "p \<noteq> q"
    from two_filtered [OF that(2,3) this, of "\<lambda>P. p_pc P = PRun"
                         "(procs s ! p)\<lparr>p_pc := PDone\<rparr>"] that
    have "2 \<le> running s" by (simp add: running_def)
    with le that(1) show False by simp
  qed
  with g le show ?thesis by (auto simp: gate_inv_def)
qed

theorem concurrency_gate_bound_witness:
  "run [Enqueue 7 100, Enqueue 8 200, ProcStart 0, ProcStart 1, ProcGet 0, ProcGet 1,
        ProcAcquire 0] (the (new_request_queue 1)) \<noteq> None \<and>
   running (the (run [Enqueue 7 100, Enqueue 8 200, ProcStart 0, ProcStart 1, ProcGet 0,
                      ProcGet 1, ProcAcquire 0] (the (new_request_queue 1)))) = 1 \<and>
   step (ProcAcquire 1)
        (the (run [Enqueue 7 100, Enqueue 8 200, ProcStart 0, ProcStart 1, ProcGet 0,
                   ProcGet 1, ProcAcquire 0] (the (new_request_queue 1)))) = None"
proof -
  let ?evs = "[Enqueue 7 100, Enqueue 8 200, ProcStart 0, ProcStart 1, ProcGet 0, ProcGet 1,
               ProcAcquire 0]"
  have n: "new_request_queue 1 = Some (the (new_request_queue 1))"
    by (simp add: new_request_queue_def)
  have r: "run ?evs (the (new_request_queue 1)) =
           Some (the (run ?evs (the (new_request_queue 1))))"
    by (simp add: new_request_queue_def enqueue_request_def get_queue_def Let_def put_def
          new_processor_def proc_start_def proc_get_def loop_head_def proc_acquire_def)
  from concurrency_gate_bound [OF n r] r show ?thesis
    by (simp add: new_request_queue_def enqueue_request_def get_queue_def Let_def put_def
          new_processor_def proc_start_def proc_get_def loop_head_def proc_acquire_def
          running_def)
qed

subsection \<open>Per-key ordering: how the parts of the invariant depend on the state\<close>

lemma reg_ok_frame:
  assumes "reg_ok s" "queues s' = queues s" "pending_requests s' = pending_requests s"
    "length (queue_objs s') = length (queue_objs s)"
    "length (pending_objs s') = length (pending_objs s)"
  shows "reg_ok s'"
  using assms unfolding reg_ok_def by simp

lemma key_ok_frame:
  assumes "key_ok s" "queues s' = queues s" "sequence_counters s' = sequence_counters s"
    "queue_objs s' = queue_objs s" "pending_objs s' = pending_objs s"
  shows "key_ok s'"
  using assms unfolding key_ok_def by simp

lemma proc_ok_frame:
  assumes "queues s' = queues s" "sequence_counters s' = sequence_counters s"
    "queue_objs s' = queue_objs s"
  shows "proc_ok s' P = proc_ok s P"
  using assms unfolding proc_ok_def by simp

lemma procs_ok_update:
  assumes "procs_ok s" "queues s' = queues s" "sequence_counters s' = sequence_counters s"
    "queue_objs s' = queue_objs s" "procs s' = (procs s)[p := P']" "proc_ok s P'"
  shows "procs_ok s'"
proof -
  have "proc_ok s' (procs s' ! x)" if "x < length (procs s')" for x
  proof (cases "x = p")
    case True
    with that assms(2-6) show ?thesis by (simp add: proc_ok_frame [of s' s])
  next
    case False
    with that assms show ?thesis by (simp add: proc_ok_frame [of s' s] procs_ok_def)
  qed
  then show ?thesis by (simp add: procs_ok_def)
qed

lemma unique_ok_update:
  assumes "unique_ok s" "procs s' = (procs s)[p := P']"
    "p_conversation P' = p_conversation (procs s ! p)"
    "p_pc (procs s ! p) = PDone \<longrightarrow> p_pc P' = PDone"
  shows "unique_ok s'"
  unfolding unique_ok_def
proof (intro allI impI)
  fix a b
  assume h: "a < length (procs s') \<and> b < length (procs s') \<and> a \<noteq> b \<and>
             p_conversation (procs s' ! a) = p_conversation (procs s' ! b)"
  then have ab: "a < length (procs s)" "b < length (procs s)" "a \<noteq> b"
    using assms(2) by simp_all
  have conv: "p_conversation (procs s' ! x) = p_conversation (procs s ! x)"
    if "x < length (procs s)" for x
    using that assms(2,3) by (cases "x = p") simp_all
  have dn: "p_pc (procs s ! x) = PDone \<Longrightarrow> p_pc (procs s' ! x) = PDone"
    if "x < length (procs s)" for x
    using that assms(2,4) by (cases "x = p") simp_all
  from h ab conv have "p_conversation (procs s ! a) = p_conversation (procs s ! b)" by simp
  with assms(1) ab have "p_pc (procs s ! a) = PDone \<or> p_pc (procs s ! b) = PDone"
    unfolding unique_ok_def by blast
  with dn ab show "p_pc (procs s' ! a) = PDone \<or> p_pc (procs s' ! b) = PDone" by blast
qed

lemma sched_ok_update:
  assumes "sched_ok s" "procs s' = (procs s)[p := P']"
    "p_pc (procs s ! p) = PDone \<longrightarrow> p_pc P' = PDone"
    "tasks s' = tasks s" "cleaners s' = cleaners s" "lock_held s' = lock_held s"
  shows "sched_ok s'"
proof -
  have "x \<in> set (tasks s)" if "x < length (procs s)" "p_pc (procs s' ! x) \<noteq> PDone" for x
  proof -
    from that assms(2,3) have "p_pc (procs s ! x) \<noteq> PDone"
      by (cases "x = p") auto
    with assms(1) that(1) show ?thesis unfolding sched_ok_def by blast
  qed
  with assms show ?thesis unfolding sched_ok_def by simp
qed

lemma log_ok_update:
  assumes "log_ok s" "procs s' = (procs s)[p := P']" "exec_log s' = exec_log s"
    "p_conversation P' = p_conversation (procs s ! p)"
    "p_pc P' = PNew \<longrightarrow> log_seqs s p = []"
    "p_pc P' = PGet \<or> p_pc P' = PSem \<longrightarrow> length (log_seqs s p) = next_sequence P'"
    "p_pc P' = PRun \<longrightarrow> length (log_seqs s p) = next_sequence P' + 1"
  shows "log_ok s'"
proof -
  have ls: "log_seqs s' x = log_seqs s x" for x
    using assms(3) by (simp add: log_seqs_def)
  have conv: "p_conversation (procs s' ! x) = p_conversation (procs s ! x)"
    if "x < length (procs s)" for x
    using that assms(2,4) by (cases "x = p") simp_all
  have a: "\<forall>e \<in> set (exec_log s').
        fst e < length (procs s') \<and> conversation_id (snd e) = p_conversation (procs s' ! fst e)"
    using assms(1,2,3) conv unfolding log_ok_def by auto
  have b: "log_seqs s' x = [0 ..< length (log_seqs s' x)] \<and>
        (p_pc (procs s' ! x) = PNew \<longrightarrow> log_seqs s' x = []) \<and>
        (p_pc (procs s' ! x) = PGet \<or> p_pc (procs s' ! x) = PSem \<longrightarrow>
           length (log_seqs s' x) = next_sequence (procs s' ! x)) \<and>
        (p_pc (procs s' ! x) = PRun \<longrightarrow>
           length (log_seqs s' x) = next_sequence (procs s' ! x) + 1)"
    if x: "x < length (procs s')" for x
  proof (cases "x = p")
    case True
    with x assms show ?thesis unfolding log_ok_def ls by simp
  next
    case False
    with x assms(1,2) show ?thesis unfolding log_ok_def ls by simp
  qed
  from a b show ?thesis unfolding log_ok_def by blast
qed

lemma fifo_inv_frame:
  assumes inv: "fifo_inv s"
    and fr: "queues s' = queues s" "sequence_counters s' = sequence_counters s"
      "pending_requests s' = pending_requests s" "tasks s' = tasks s"
      "queue_objs s' = queue_objs s" "pending_objs s' = pending_objs s"
      "procs s' = procs s" "cleaners s' = cleaners s" "lock_held s' = lock_held s"
      "exec_log s' = exec_log s"
  shows "fifo_inv s'"
proof -
  from inv have i: "reg_ok s" "key_ok s" "procs_ok s" "unique_ok s" "sched_ok s" "log_ok s"
    by (simp_all add: fifo_inv_def)
  have "reg_ok s'" by (rule reg_ok_frame [OF i(1)]) (simp_all add: fr)
  moreover have "key_ok s'" by (rule key_ok_frame [OF i(2)]) (simp_all add: fr)
  moreover have "procs_ok s'"
    using i(3) fr(7) proc_ok_frame [OF fr(1,2,5)] by (simp add: procs_ok_def)
  moreover have "unique_ok s'" using i(4) fr(7) by (simp add: unique_ok_def)
  moreover have "sched_ok s'" using i(5) fr(4,7,8,9) by (simp add: sched_ok_def)
  moreover have "log_ok s'" using i(6) fr(7,10) by (simp add: log_ok_def log_seqs_def)
  ultimately show ?thesis by (simp add: fifo_inv_def)
qed

text \<open>A step of one processor that rewrites only its own entry.\<close>

lemma fifo_inv_proc_update:
  assumes inv: "fifo_inv s"
    and fr: "queues s' = queues s" "sequence_counters s' = sequence_counters s"
      "pending_requests s' = pending_requests s" "tasks s' = tasks s"
      "queue_objs s' = queue_objs s" "pending_objs s' = pending_objs s"
      "cleaners s' = cleaners s" "lock_held s' = lock_held s" "exec_log s' = exec_log s"
    and upd: "procs s' = (procs s)[p := P']"
    and conv: "p_conversation P' = p_conversation (procs s ! p)"
    and dn: "p_pc (procs s ! p) = PDone \<longrightarrow> p_pc P' = PDone"
    and ok: "proc_ok s P'"
    and lg: "p_pc P' = PNew \<longrightarrow> log_seqs s p = []"
      "p_pc P' = PGet \<or> p_pc P' = PSem \<longrightarrow> length (log_seqs s p) = next_sequence P'"
      "p_pc P' = PRun \<longrightarrow> length (log_seqs s p) = next_sequence P' + 1"
  shows "fifo_inv s'"
proof -
  from inv have i: "reg_ok s" "key_ok s" "procs_ok s" "unique_ok s" "sched_ok s" "log_ok s"
    by (simp_all add: fifo_inv_def)
  have "reg_ok s'" by (rule reg_ok_frame [OF i(1)]) (simp_all add: fr)
  moreover have "key_ok s'" by (rule key_ok_frame [OF i(2)]) (simp_all add: fr)
  moreover have "procs_ok s'" by (rule procs_ok_update [OF i(3) _ _ _ upd ok]) (simp_all add: fr)
  moreover have "unique_ok s'" using i(4) upd conv dn by (rule unique_ok_update)
  moreover have "sched_ok s'" by (rule sched_ok_update [OF i(5) upd dn]) (simp_all add: fr)
  moreover have "log_ok s'" using i(6) upd fr(9) conv lg by (rule log_ok_update)
  ultimately show ?thesis by (simp add: fifo_inv_def)
qed

subsection \<open>Per-key ordering: the steps keep the invariant\<close>

lemma fifo_caller_return:
  assumes "caller_return i s = Some s'" "fifo_inv s" shows "fifo_inv s'"
  by (rule fifo_inv_frame [OF assms(2)])
     (use assms(1) in \<open>auto simp: caller_return_def split: if_splits option.splits fut.splits\<close>)

lemma fifo_caller_timeout:
  assumes "caller_timeout i s = Some s'" "fifo_inv s" shows "fifo_inv s'"
  by (rule fifo_inv_frame [OF assms(2)])
     (use assms(1) in \<open>auto simp: caller_timeout_def split: if_splits option.splits\<close>)

lemma fifo_acquire_enter:
  assumes "acquire_enter s = Some s'" "fifo_inv s" shows "fifo_inv s'"
  by (rule fifo_inv_frame [OF assms(2)])
     (use assms(1) in \<open>auto simp: acquire_enter_def split: if_splits\<close>)

lemma fifo_acquire_slot:
  assumes "acquire_slot a s = Some s'" "fifo_inv s" shows "fifo_inv s'"
  by (rule fifo_inv_frame [OF assms(2)])
     (use assms(1) in \<open>auto simp: acquire_slot_def split: if_splits\<close>)

lemma fifo_acquire_exit:
  assumes "acquire_exit a s = Some s'" "fifo_inv s" shows "fifo_inv s'"
  by (rule fifo_inv_frame [OF assms(2)])
     (use assms(1) in \<open>auto simp: acquire_exit_def split: if_splits\<close>)

lemma fifo_acquire_leave:
  assumes "acquire_leave a s = Some s'" "fifo_inv s" shows "fifo_inv s'"
  by (rule fifo_inv_frame [OF assms(2)])
     (use assms(1) in \<open>auto simp: acquire_leave_def split: if_splits\<close>)

lemma fifo_invD:
  assumes "fifo_inv s"
  shows "reg_ok s" "key_ok s" "procs_ok s" "unique_ok s" "sched_ok s" "log_ok s"
  using assms by (simp_all add: fifo_inv_def)

lemma procs_okD: "procs_ok s \<Longrightarrow> p < length (procs s) \<Longrightarrow> proc_ok s (procs s ! p)"
  by (simp add: procs_ok_def)

lemma log_okD:
  assumes "log_ok s" "p < length (procs s)"
  shows "log_seqs s p = [0 ..< length (log_seqs s p)]"
    "p_pc (procs s ! p) = PNew \<Longrightarrow> log_seqs s p = []"
    "p_pc (procs s ! p) = PGet \<or> p_pc (procs s ! p) = PSem \<Longrightarrow>
       length (log_seqs s p) = next_sequence (procs s ! p)"
    "p_pc (procs s ! p) = PRun \<Longrightarrow> length (log_seqs s p) = next_sequence (procs s ! p) + 1"
  using assms unfolding log_ok_def by blast+

lemma fifo_proc_start:
  assumes st: "proc_start p s = Some s'" and inv: "fifo_inv s"
  shows "fifo_inv s'"
proof -
  let ?P = "procs s ! p"
  from st have p: "p < length (procs s)" and pc: "p_pc ?P = PNew"
    and nc: "\<not> must_cancel ?P"
    by (auto simp: proc_start_def split: if_splits)
  note i = fifo_invD [OF inv]
  from procs_okD [OF i(3) p] pc obtain q c where
    q: "queues s (p_conversation ?P) = Some q" and
    c: "sequence_counters s (p_conversation ?P) = Some c" and
    u: "unfinished_tasks (queue_objs s ! q) = c"
    by (auto simp: proc_ok_def)
  from i(1) q have pq: "pending_requests s (p_conversation ?P) = Some q"
    by (simp add: reg_ok_def)
  let ?P' = "?P\<lparr>p_queue := q, p_pending := q, next_sequence := 0, p_pc := PGet\<rparr>"
  from st p pc nc q pq have s': "s' = s\<lparr>procs := (procs s)[p := ?P']\<rparr>"
    by (simp add: proc_start_def Let_def)
  show ?thesis
  proof (rule fifo_inv_proc_update [OF inv, where p = p and P' = ?P'])
    show "proc_ok s ?P'" using q c u by (simp add: proc_ok_def in_loop_def has_request_def)
    show "p_pc ?P' = PGet \<or> p_pc ?P' = PSem \<longrightarrow> length (log_seqs s p) = next_sequence ?P'"
      using log_okD(2) [OF i(6) p pc] by simp
  qed (simp_all add: s' pc)
qed

lemma fifo_proc_cancelled:
  assumes st: "proc_cancelled p s = Some s'" and inv: "fifo_inv s"
  shows "fifo_inv s'"
proof -
  let ?P = "procs s ! p"
  from st have p: "p < length (procs s)" and mc: "must_cancel ?P" and nd: "p_pc ?P \<noteq> PDone"
    by (auto simp: proc_cancelled_def Let_def split: if_splits proc_pc.splits)
  note i = fifo_invD [OF inv]
  define c' where "c' = (if p_pc ?P = PNew \<or> p_pc ?P = PFinally then PDone else PFinally)"
  let ?P' = "?P\<lparr>must_cancel := False, p_pc := c'\<rparr>"
  have "procs s' = (procs s)[p := ?P'] \<and>
    queues s' = queues s \<and> sequence_counters s' = sequence_counters s \<and>
    pending_requests s' = pending_requests s \<and> tasks s' = tasks s \<and>
    queue_objs s' = queue_objs s \<and> pending_objs s' = pending_objs s \<and>
    cleaners s' = cleaners s \<and> lock_held s' = lock_held s \<and> exec_log s' = exec_log s"
    by (cases "p_pc ?P")
       (use st p mc nd in \<open>auto simp: proc_cancelled_def Let_def c'_def\<close>)
  then have s': "procs s' = (procs s)[p := ?P']"
    "queues s' = queues s" "sequence_counters s' = sequence_counters s"
    "pending_requests s' = pending_requests s" "tasks s' = tasks s"
    "queue_objs s' = queue_objs s" "pending_objs s' = pending_objs s"
    "cleaners s' = cleaners s" "lock_held s' = lock_held s" "exec_log s' = exec_log s"
    by simp_all
  have c': "c' = PDone \<or> c' = PFinally" by (simp add: c'_def)
  show ?thesis
  proof (rule fifo_inv_proc_update [OF inv s'(2-10) s'(1)])
    show "proc_ok s ?P'"
      using procs_okD [OF i(3) p] nd c'
      by (auto simp: proc_ok_def in_loop_def has_request_def)
  qed (use c' nd in auto)
qed


lemma log_seqs_append:
  "exec_log s' = exec_log s @ [(p, r)] \<Longrightarrow>
   log_seqs s' x = (if x = p then log_seqs s x @ [sequence_number r] else log_seqs s x)"
  by (simp add: log_seqs_def)

lemma fifo_proc_acquire:
  assumes st: "proc_acquire p s = Some s'" and inv: "fifo_inv s"
  shows "fifo_inv s'"
proof -
  let ?P = "procs s ! p"
  from st have p: "p < length (procs s)" and pc: "p_pc ?P = PSem"
    and nc: "\<not> must_cancel ?P" and sem: "0 < semaphore s"
    by (auto simp: proc_acquire_def split: if_splits)
  note i = fifo_invD [OF inv]
  from procs_okD [OF i(3) p] pc obtain r where
    r: "next_request ?P = Some r" and rs: "sequence_number r = next_sequence ?P"
    and rc: "conversation_id r = p_conversation ?P"
    by (auto simp: proc_ok_def has_request_def)
  let ?P' = "?P\<lparr>p_pc := PRun\<rparr>"
  from st p pc nc sem r have s'full: "s' = s\<lparr>semaphore := semaphore s - 1,
      procs := (procs s)[p := ?P'], exec_log := exec_log s @ [(p, r)]\<rparr>"
    by (simp add: proc_acquire_def)
  then have s': "procs s' = (procs s)[p := ?P']" "exec_log s' = exec_log s @ [(p, r)]"
    "queues s' = queues s" "sequence_counters s' = sequence_counters s"
    "pending_requests s' = pending_requests s" "tasks s' = tasks s"
    "queue_objs s' = queue_objs s" "pending_objs s' = pending_objs s"
    "cleaners s' = cleaners s" "lock_held s' = lock_held s"
    by simp_all
  have "reg_ok s'" by (rule reg_ok_frame [OF i(1)]) (simp_all add: s')
  moreover have "key_ok s'" by (rule key_ok_frame [OF i(2)]) (simp_all add: s')
  moreover have "procs_ok s'"
  proof (rule procs_ok_update [OF i(3), where p = p and P' = ?P'])
    show "proc_ok s ?P'"
      using procs_okD [OF i(3) p] pc by (auto simp: proc_ok_def in_loop_def has_request_def)
  qed (simp_all add: s')
  moreover have "unique_ok s'"
    by (rule unique_ok_update [OF i(4), where p = p and P' = ?P']) (simp_all add: s' pc)
  moreover have "sched_ok s'"
    by (rule sched_ok_update [OF i(5), where p = p and P' = ?P']) (simp_all add: s' pc)
  moreover have "log_ok s'"
  proof -
    have lg: "log_seqs s' x = (if x = p then log_seqs s x @ [sequence_number r] else log_seqs s x)"
      for x by (rule log_seqs_append) (rule s'(2))
    have len: "length (log_seqs s p) = next_sequence ?P"
      using log_okD(3) [OF i(6) p] pc by simp
    have a: "\<forall>e \<in> set (exec_log s').
        fst e < length (procs s') \<and> conversation_id (snd e) = p_conversation (procs s' ! fst e)"
    proof
      fix e assume "e \<in> set (exec_log s')"
      then consider "e \<in> set (exec_log s)" | "e = (p, r)" by (auto simp: s')
      then show "fst e < length (procs s') \<and>
                 conversation_id (snd e) = p_conversation (procs s' ! fst e)"
      proof cases
        case 1
        with i(6) have "fst e < length (procs s)"
          "conversation_id (snd e) = p_conversation (procs s ! fst e)"
          unfolding log_ok_def by blast+
        then show ?thesis by (cases "fst e = p") (simp_all add: s')
      next
        case 2
        with p rc show ?thesis by (simp add: s')
      qed
    qed
    have b: "log_seqs s' x = [0 ..< length (log_seqs s' x)] \<and>
        (p_pc (procs s' ! x) = PNew \<longrightarrow> log_seqs s' x = []) \<and>
        (p_pc (procs s' ! x) = PGet \<or> p_pc (procs s' ! x) = PSem \<longrightarrow>
           length (log_seqs s' x) = next_sequence (procs s' ! x)) \<and>
        (p_pc (procs s' ! x) = PRun \<longrightarrow>
           length (log_seqs s' x) = next_sequence (procs s' ! x) + 1)"
      if x: "x < length (procs s')" for x
    proof (cases "x = p")
      case True
      from log_okD(1) [OF i(6) p] len rs
      have "log_seqs s p @ [sequence_number r] = [0 ..< Suc (next_sequence ?P)]"
        by simp
      with True p len show ?thesis by (simp add: lg s')
    next
      case False
      with x have x': "x < length (procs s)" by (simp add: s')
      from False x' log_okD [OF i(6) x'] show ?thesis by (simp add: lg s')
    qed
    from a b show ?thesis unfolding log_ok_def by blast
  qed
  ultimately show ?thesis by (simp add: fifo_inv_def)
qed

lemma proc_ok_must_cancel [simp]: "proc_ok s (P\<lparr>must_cancel := b\<rparr>) = proc_ok s P"
  by (simp add: proc_ok_def)

lemma cancel_all_fields:
  assumes "x < length ps"
  shows "p_pc (cancel_all ts ps ! x) = p_pc (ps ! x)"
    "p_conversation (cancel_all ts ps ! x) = p_conversation (ps ! x)"
    "next_sequence (cancel_all ts ps ! x) = next_sequence (ps ! x)"
    "proc_ok s (cancel_all ts ps ! x) = proc_ok s (ps ! x)"
  using assms by (simp_all add: cancel_all_nth)

text \<open>Cancellation requests alone keep the invariant, for any lock and cleaner state
  that satisfies the scheduling part.\<close>

lemma fifo_cancel_all:
  assumes inv: "fifo_inv s"
    and fr: "queues s' = queues s" "sequence_counters s' = sequence_counters s"
      "pending_requests s' = pending_requests s" "tasks s' = tasks s"
      "queue_objs s' = queue_objs s" "pending_objs s' = pending_objs s"
      "exec_log s' = exec_log s"
    and upd: "procs s' = cancel_all ts (procs s)"
    and cl: "\<forall>j < length (cleaners s'). \<not> cl_done (cleaners s' ! j) \<longrightarrow>
        lock_held s' \<and> cl_tasks (cleaners s' ! j) = tasks s' \<and>
        (\<forall>j' < length (cleaners s'). \<not> cl_done (cleaners s' ! j') \<longrightarrow> j' = j)"
  shows "fifo_inv s'"
proof -
  note i = fifo_invD [OF inv]
  have len: "length (procs s') = length (procs s)" by (simp add: upd)
  have "reg_ok s'" by (rule reg_ok_frame [OF i(1)]) (simp_all add: fr)
  moreover have "key_ok s'" by (rule key_ok_frame [OF i(2)]) (simp_all add: fr)
  moreover have "procs_ok s'"
    unfolding procs_ok_def len
  proof (intro allI impI)
    fix x assume x: "x < length (procs s)"
    with i(3) have "proc_ok s (procs s ! x)" by (simp add: procs_ok_def)
    with x show "proc_ok s' (procs s' ! x)"
      by (simp add: upd cancel_all_fields proc_ok_frame [OF fr(1,2,5)])
  qed
  moreover have "unique_ok s'"
    unfolding unique_ok_def len
  proof (intro allI impI)
    fix a b
    assume h: "a < length (procs s) \<and> b < length (procs s) \<and> a \<noteq> b \<and>
               p_conversation (procs s' ! a) = p_conversation (procs s' ! b)"
    then have ab: "a < length (procs s)" "b < length (procs s)" "a \<noteq> b"
      and e: "p_conversation (procs s' ! a) = p_conversation (procs s' ! b)"
      by simp_all
    from e ab have "p_conversation (procs s ! a) = p_conversation (procs s ! b)"
      by (simp add: upd cancel_all_fields)
    with i(4) ab have "p_pc (procs s ! a) = PDone \<or> p_pc (procs s ! b) = PDone"
      unfolding unique_ok_def by blast
    with ab show "p_pc (procs s' ! a) = PDone \<or> p_pc (procs s' ! b) = PDone"
      by (simp add: upd cancel_all_fields)
  qed
  moreover have "sched_ok s'"
  proof -
    have "x \<in> set (tasks s')" if "x < length (procs s)" "p_pc (procs s' ! x) \<noteq> PDone" for x
      using that i(5) unfolding sched_ok_def by (simp add: upd cancel_all_fields fr)
    with cl show ?thesis unfolding sched_ok_def len by blast
  qed
  moreover have "log_ok s'"
  proof -
    have ls: "log_seqs s' x = log_seqs s x" for x by (simp add: log_seqs_def fr)
    have a: "fst e < length (procs s) \<and>
             conversation_id (snd e) = p_conversation (procs s' ! fst e)"
      if "e \<in> set (exec_log s)" for e
    proof -
      from that i(6) have "fst e < length (procs s)"
        "conversation_id (snd e) = p_conversation (procs s ! fst e)"
        unfolding log_ok_def by blast+
      then show ?thesis by (simp add: upd cancel_all_fields)
    qed
    have b: "log_seqs s x = [0 ..< length (log_seqs s x)] \<and>
        (p_pc (procs s' ! x) = PNew \<longrightarrow> log_seqs s x = []) \<and>
        (p_pc (procs s' ! x) = PGet \<or> p_pc (procs s' ! x) = PSem \<longrightarrow>
           length (log_seqs s x) = next_sequence (procs s' ! x)) \<and>
        (p_pc (procs s' ! x) = PRun \<longrightarrow>
           length (log_seqs s x) = next_sequence (procs s' ! x) + 1)"
      if x: "x < length (procs s)" for x
      using log_okD [OF i(6) x] x by (simp add: upd cancel_all_fields)
    from a b show ?thesis unfolding log_ok_def len ls fr(7) by blast
  qed
  ultimately show ?thesis by (simp add: fifo_inv_def)
qed

text \<open>Clearing the dictionaries and the registry keeps the invariant when every
  processor is done and no \<open>cleanup\<close> is left waiting.\<close>

lemma fifo_clear_all:
  assumes inv: "fifo_inv s"
    and dn: "\<forall>p < length (procs s). p_pc (procs s ! p) = PDone"
    and fr: "queues s' = Map.empty" "sequence_counters s' = Map.empty"
      "pending_requests s' = Map.empty" "tasks s' = []"
      "queue_objs s' = queue_objs s" "pending_objs s' = pending_objs s"
      "exec_log s' = exec_log s" "procs s' = procs s"
    and cl: "\<forall>j < length (cleaners s'). cl_done (cleaners s' ! j)"
  shows "fifo_inv s'"
proof -
  note i = fifo_invD [OF inv]
  have "reg_ok s'" using i(1) by (simp add: reg_ok_def fr)
  moreover have "key_ok s'" by (simp add: key_ok_def fr)
  moreover have "procs_ok s'" using dn by (simp add: procs_ok_def proc_ok_def fr)
  moreover have "unique_ok s'" using i(4) by (simp add: unique_ok_def fr)
  moreover have "sched_ok s'" using dn cl by (simp add: sched_ok_def fr)
  moreover have "log_ok s'" using i(6) by (simp add: log_ok_def log_seqs_def fr)
  ultimately show ?thesis by (simp add: fifo_inv_def)
qed

lemma sched_all_done:
  assumes "sched_ok s" "list_all (\<lambda>t. t < length (procs s) \<and> p_pc (procs s ! t) = PDone) (tasks s)"
  shows "\<forall>p < length (procs s). p_pc (procs s ! p) = PDone"
  using assms unfolding sched_ok_def list_all_iff by blast

lemma fifo_cleanup_begin:
  assumes st: "cleanup_begin s = Some s'" and inv: "fifo_inv s"
  shows "fifo_inv s'"
proof -
  note i = fifo_invD [OF inv]
  from st have nl: "\<not> lock_held s" by (auto simp: cleanup_begin_def split: if_splits)
  with i(5) have alldone: "\<forall>j < length (cleaners s). cl_done (cleaners s ! j)"
    unfolding sched_ok_def by blast
  show ?thesis
  proof (cases "tasks s = []")
    case True
    with st nl have s': "s' = (clear_all s)\<lparr>cleaners := cleaners s @ [\<lparr>cl_tasks = [], cl_done = True\<rparr>]\<rparr>"
      by (simp add: cleanup_begin_def Let_def)
    from True i(5) have dn: "\<forall>p < length (procs s). p_pc (procs s ! p) = PDone"
      unfolding sched_ok_def by auto
    show ?thesis
    proof (rule fifo_clear_all [OF inv dn])
      show "\<forall>j < length (cleaners s'). cl_done (cleaners s' ! j)"
        using alldone by (auto simp: s' clear_all_def nth_append)
    qed (simp_all add: s' clear_all_def)
  next
    case False
    with st nl have s': "s' = s\<lparr>procs := cancel_all (tasks s) (procs s), lock_held := True,
        cleaners := cleaners s @ [\<lparr>cl_tasks = tasks s, cl_done = False\<rparr>]\<rparr>"
      by (simp add: cleanup_begin_def Let_def)
    show ?thesis
    proof (rule fifo_cancel_all [OF inv, where ts = "tasks s"])
      show "\<forall>j < length (cleaners s'). \<not> cl_done (cleaners s' ! j) \<longrightarrow>
        lock_held s' \<and> cl_tasks (cleaners s' ! j) = tasks s' \<and>
        (\<forall>j' < length (cleaners s'). \<not> cl_done (cleaners s' ! j') \<longrightarrow> j' = j)"
        using alldone by (auto simp: s' nth_append)
    qed (simp_all add: s')
  qed
qed

lemma fifo_cleanup_end:
  assumes st: "cleanup_end j s = Some s'" and inv: "fifo_inv s"
  shows "fifo_inv s'"
proof -
  note i = fifo_invD [OF inv]
  from st have j: "j < length (cleaners s)" and nd: "\<not> cl_done (cleaners s ! j)"
    and la: "list_all (\<lambda>t. t < length (procs s) \<and> p_pc (procs s ! t) = PDone)
               (cl_tasks (cleaners s ! j))"
    and s': "s' = (clear_all s)\<lparr>lock_held := False,
                cleaners := (cleaners s)[j := (cleaners s ! j)\<lparr>cl_done := True\<rparr>]\<rparr>"
    by (auto simp: cleanup_end_def split: if_splits)
  from i(5) j nd have ts: "cl_tasks (cleaners s ! j) = tasks s"
    and only: "\<forall>j' < length (cleaners s). \<not> cl_done (cleaners s ! j') \<longrightarrow> j' = j"
    unfolding sched_ok_def by blast+
  from sched_all_done [OF i(5)] la ts
  have dn: "\<forall>p < length (procs s). p_pc (procs s ! p) = PDone" by simp
  show ?thesis
  proof (rule fifo_clear_all [OF inv dn])
    show "\<forall>j' < length (cleaners s'). cl_done (cleaners s' ! j')"
    proof (intro allI impI)
      fix j' assume "j' < length (cleaners s')"
      then have j': "j' < length (cleaners s)" by (simp add: s' clear_all_def)
      show "cl_done (cleaners s' ! j')"
      proof (cases "j' = j")
        case True
        with j show ?thesis by (simp add: s' clear_all_def)
      next
        case False
        with only j' have "cl_done (cleaners s ! j')" by blast
        with False show ?thesis by (simp add: s' clear_all_def)
      qed
    qed
  qed (simp_all add: s' clear_all_def)
qed

text \<open>A step of processor \<open>p\<close> that may also rewrite the stored objects.\<close>

lemma fifo_inv_proc_step:
  assumes inv: "fifo_inv s"
    and fr: "queues s' = queues s" "pending_requests s' = pending_requests s"
      "tasks s' = tasks s" "cleaners s' = cleaners s" "lock_held s' = lock_held s"
      "exec_log s' = exec_log s" "length (queue_objs s') = length (queue_objs s)"
      "length (pending_objs s') = length (pending_objs s)"
    and upd: "procs s' = (procs s)[p := P']"
    and conv: "p_conversation P' = p_conversation (procs s ! p)"
    and dn: "p_pc (procs s ! p) = PDone \<longrightarrow> p_pc P' = PDone"
    and ko: "key_ok s'"
    and others: "\<And>x. x < length (procs s) \<Longrightarrow> x \<noteq> p \<Longrightarrow> proc_ok s' (procs s ! x)"
    and ok: "proc_ok s' P'"
    and lg: "p_pc P' = PNew \<longrightarrow> log_seqs s p = []"
      "p_pc P' = PGet \<or> p_pc P' = PSem \<longrightarrow> length (log_seqs s p) = next_sequence P'"
      "p_pc P' = PRun \<longrightarrow> length (log_seqs s p) = next_sequence P' + 1"
  shows "fifo_inv s'"
proof -
  note i = fifo_invD [OF inv]
  have "reg_ok s'" by (rule reg_ok_frame [OF i(1)]) (simp_all add: fr)
  moreover have "procs_ok s'"
    unfolding procs_ok_def
  proof (intro allI impI)
    fix x assume "x < length (procs s')"
    then have x: "x < length (procs s)" by (simp add: upd)
    show "proc_ok s' (procs s' ! x)"
    proof (cases "x = p")
      case True
      with x ok show ?thesis by (simp add: upd)
    next
      case False
      with others [OF x False] show ?thesis by (simp add: upd)
    qed
  qed
  moreover have "unique_ok s'" using i(4) upd conv dn by (rule unique_ok_update)
  moreover have "sched_ok s'" by (rule sched_ok_update [OF i(5) upd dn]) (simp_all add: fr)
  moreover have "log_ok s'" using i(6) upd fr(6) conv lg by (rule log_ok_update)
  ultimately show ?thesis using ko by (simp add: fifo_inv_def)
qed

text \<open>Another processor is not affected when the counters stay and
  \<open>unfinished_tasks\<close> changes only for the queue of this processor's key.\<close>

lemma proc_ok_other:
  assumes i: "reg_ok s" "unique_ok s" "procs_ok s"
    and p: "p < length (procs s)" "p_pc (procs s ! p) \<noteq> PDone"
    and x: "x < length (procs s)" "x \<noteq> p"
    and q: "queues s (p_conversation (procs s ! p)) = Some q"
    and fr: "queues s' = queues s" "sequence_counters s' = sequence_counters s"
      "\<forall>a. a \<noteq> q \<longrightarrow> unfinished_tasks (queue_objs s' ! a) = unfinished_tasks (queue_objs s ! a)"
  shows "proc_ok s' (procs s ! x)"
proof (cases "p_pc (procs s ! x) = PDone")
  case True
  then show ?thesis by (simp add: proc_ok_def)
next
  case False
  let ?X = "procs s ! x"
  from i(2) p x False have kx: "p_conversation ?X \<noteq> p_conversation (procs s ! p)"
    unfolding unique_ok_def by metis
  from i(3) x(1) have okx: "proc_ok s ?X" by (simp add: procs_ok_def)
  with False obtain q' where q': "queues s (p_conversation ?X) = Some q'"
    by (auto simp: proc_ok_def)
  with i(1) q kx have "q' \<noteq> q" unfolding reg_ok_def by metis
  with fr(3) have "unfinished_tasks (queue_objs s' ! q') = unfinished_tasks (queue_objs s ! q')"
    by simp
  with okx q' show ?thesis by (simp add: proc_ok_def fr)
qed

text \<open>The objects of the other keys are not affected when only the objects at the
  address of key \<open>k\<close> change.\<close>

lemma key_ok_update_at:
  assumes i: "reg_ok s" "key_ok s"
    and q: "queues s k = Some q"
    and fr: "queues s' = queues s" "length (queue_objs s') = length (queue_objs s)"
      "\<forall>k'. k' \<noteq> k \<longrightarrow> sequence_counters s' k' = sequence_counters s k'"
      "\<forall>a. a \<noteq> q \<longrightarrow> queue_objs s' ! a = queue_objs s ! a \<and> pending_objs s' ! a = pending_objs s ! a"
    and new: "\<exists>c. sequence_counters s' k = Some c \<and>
           (\<forall>r \<in> set (items (queue_objs s' ! q)). conversation_id r = k \<and> sequence_number r < c) \<and>
           (\<forall>n r. (pending_objs s' ! q) n = Some r \<longrightarrow>
                  conversation_id r = k \<and> sequence_number r = n \<and> n < c)"
  shows "key_ok s'"
  unfolding key_ok_def
proof (intro allI impI)
  fix k' q' assume "queues s' k' = Some q'"
  then have q': "queues s k' = Some q'" by (simp add: fr)
  show "q' < length (queue_objs s') \<and>
        (\<exists>c. sequence_counters s' k' = Some c \<and>
           (\<forall>r \<in> set (items (queue_objs s' ! q')). conversation_id r = k' \<and> sequence_number r < c) \<and>
           (\<forall>n r. (pending_objs s' ! q') n = Some r \<longrightarrow>
                  conversation_id r = k' \<and> sequence_number r = n \<and> n < c))"
  proof (cases "k' = k")
    case True
    with q q' have "q' = q" by simp
    with True new i(2) q show ?thesis by (simp add: key_ok_def fr)
  next
    case False
    with i(1) q q' have "q' \<noteq> q" unfolding reg_ok_def by metis
    with fr(3,4) False have "sequence_counters s' k' = sequence_counters s k'"
      "queue_objs s' ! q' = queue_objs s ! q'" "pending_objs s' ! q' = pending_objs s ! q'"
      by simp_all
    with i(2) q' show ?thesis unfolding key_ok_def by (simp add: fr)
  qed
qed

lemma key_okD:
  assumes "key_ok s" "queues s k = Some q"
  obtains c where "q < length (queue_objs s)" "sequence_counters s k = Some c"
    "\<And>r. r \<in> set (items (queue_objs s ! q)) \<Longrightarrow> conversation_id r = k \<and> sequence_number r < c"
    "\<And>n r. (pending_objs s ! q) n = Some r \<Longrightarrow>
            conversation_id r = k \<and> sequence_number r = n \<and> n < c"
  using assms unfolding key_ok_def by blast

lemma fifo_proc_teardown:
  assumes st: "proc_teardown p s = Some s'" and inv: "fifo_inv s"
  shows "fifo_inv s'"
proof -
  let ?P = "procs s ! p" and ?cid = "p_conversation (procs s ! p)"
  let ?P' = "?P\<lparr>p_pc := PDone\<rparr>"
  from st have p: "p < length (procs s)" and pc: "p_pc ?P = PFinally"
    and nc: "\<not> must_cancel ?P" and nl: "\<not> lock_held s"
    by (auto simp: proc_teardown_def split: if_splits)
  note i = fifo_invD [OF inv]
  define del where "del \<longleftrightarrow> (\<exists>q. queues s ?cid = Some q \<and> items (queue_objs s ! q) = [])"
  show ?thesis
  proof (cases del)
    case False
    with st p pc nc nl have s': "s' = s\<lparr>procs := (procs s)[p := ?P']\<rparr>"
      by (auto simp: proc_teardown_def Let_def del_def split: option.splits)
    show ?thesis
      by (rule fifo_inv_proc_update [OF inv, where p = p and P' = ?P'])
         (simp_all add: s' proc_ok_def)
  next
    case True
    with st p pc nc nl have s': "s' = s\<lparr>queues := (queues s)(?cid := None),
        sequence_counters := (sequence_counters s)(?cid := None),
        pending_requests := (pending_requests s)(?cid := None),
        procs := (procs s)[p := ?P']\<rparr>"
      by (auto simp: proc_teardown_def Let_def del_def)
    have "reg_ok s'" using i(1) by (auto simp: reg_ok_def s')
    moreover have "key_ok s'" using i(2) unfolding key_ok_def by (simp add: s')
    moreover have "procs_ok s'"
      unfolding procs_ok_def
    proof (intro allI impI)
      fix x assume "x < length (procs s')"
      then have x: "x < length (procs s)" by (simp add: s')
      show "proc_ok s' (procs s' ! x)"
      proof (cases "x = p")
        case True
        with x show ?thesis by (simp add: s' proc_ok_def)
      next
        case False
        show ?thesis
        proof (cases "p_pc (procs s ! x) = PDone")
          case True
          with False show ?thesis by (simp add: s' proc_ok_def)
        next
          case nd: False
          from pc have "p_pc ?P \<noteq> PDone" by simp
          with i(4) p x False nd
          have "p_conversation (procs s ! x) \<noteq> ?cid"
            unfolding unique_ok_def by metis
          with procs_okD [OF i(3) x] False show ?thesis
            by (simp add: s' proc_ok_def)
        qed
      qed
    qed
    moreover have "unique_ok s'"
      by (rule unique_ok_update [OF i(4), where p = p and P' = ?P']) (simp_all add: s')
    moreover have "sched_ok s'"
      by (rule sched_ok_update [OF i(5), where p = p and P' = ?P']) (simp_all add: s')
    moreover have "log_ok s'"
      by (rule log_ok_update [OF i(6), where p = p and P' = ?P']) (simp_all add: s')
    ultimately show ?thesis by (simp add: fifo_inv_def)
  qed
qed

text \<open>The loop test, by its two outcomes.\<close>

lemma loop_head_none:
  assumes "(pending_objs s ! p_pending (procs s ! p)) (next_sequence (procs s ! p)) = None"
  shows "loop_head p s = s\<lparr>procs := (procs s)[p := (procs s ! p)\<lparr>p_pc := PGet\<rparr>]\<rparr>"
  using assms by (simp add: loop_head_def Let_def)

lemma loop_head_some:
  assumes "(pending_objs s ! p_pending (procs s ! p)) (next_sequence (procs s ! p)) = Some r"
  shows "loop_head p s =
     s\<lparr>pending_objs := (pending_objs s)[p_pending (procs s ! p) :=
          (pending_objs s ! p_pending (procs s ! p))(next_sequence (procs s ! p) := None)],
       procs := (procs s)[p := (procs s ! p)\<lparr>next_request := Some r, p_pc := PSem\<rparr>]\<rparr>"
  using assms by (simp add: loop_head_def Let_def)

text \<open>
  The loop test for a processor whose pending dictionary is the registered one of its
  key and whose \<open>next_sequence\<close> is \<open>n\<close>, from a state \<open>s1\<close> whose dictionaries and
  objects are in order for the key.
\<close>

lemma fifo_loop_head:
  assumes inv: "fifo_inv s" and p: "p < length (procs s)"
    and nd: "in_loop (p_pc (procs s ! p))"
    and q: "queues s (p_conversation (procs s ! p)) = Some q"
    and c: "sequence_counters s (p_conversation (procs s ! p)) = Some c"
    and fr: "queues s1 = queues s" "pending_requests s1 = pending_requests s"
      "sequence_counters s1 = sequence_counters s"
      "tasks s1 = tasks s" "cleaners s1 = cleaners s" "lock_held s1 = lock_held s"
      "exec_log s1 = exec_log s" "length (queue_objs s1) = length (queue_objs s)"
      "length (pending_objs s1) = length (pending_objs s)"
    and upd: "procs s1 = (procs s)[p := P1]"
    and P1: "p_conversation P1 = p_conversation (procs s ! p)" "p_pending P1 = q"
      "p_queue P1 = q"
    and unf: "unfinished_tasks (queue_objs s1 ! q) + next_sequence P1 = c"
    and oth: "\<forall>a. a \<noteq> q \<longrightarrow> queue_objs s1 ! a = queue_objs s ! a \<and>
                           pending_objs s1 ! a = pending_objs s ! a"
    and itm: "\<forall>r \<in> set (items (queue_objs s1 ! q)).
                conversation_id r = p_conversation (procs s ! p) \<and> sequence_number r < c"
    and pnd: "\<forall>n r. (pending_objs s1 ! q) n = Some r \<longrightarrow>
                conversation_id r = p_conversation (procs s ! p) \<and> sequence_number r = n \<and> n < c"
    and lg: "length (log_seqs s p) = next_sequence P1"
  shows "fifo_inv (loop_head p s1)"
proof -
  note i = fifo_invD [OF inv]
  let ?k = "p_conversation (procs s ! p)"
  let ?n = "next_sequence P1"
  from nd have ndone: "p_pc (procs s ! p) \<noteq> PDone" by (auto simp: in_loop_def)
  from key_okD [OF i(2) q] have ql: "q < length (queue_objs s)" by blast
  with i(1) fr have ql1: "q < length (pending_objs s1)" by (simp add: reg_ok_def)
  have P1n: "procs s1 ! p = P1" using p by (simp add: upd)
  show ?thesis
  proof (cases "(pending_objs s1 ! q) ?n")
    case None
    let ?P' = "P1\<lparr>p_pc := PGet\<rparr>"
    from None have lh: "loop_head p s1 = s1\<lparr>procs := (procs s1)[p := ?P']\<rparr>"
      using loop_head_none [of s1 p] by (simp add: P1n P1)
    show ?thesis
    proof (rule fifo_inv_proc_step [OF inv, where p = p and P' = ?P'])
      show "key_ok (loop_head p s1)"
      proof (rule key_ok_update_at [OF i(1,2) q])
        show "\<exists>c. sequence_counters (loop_head p s1) ?k = Some c \<and>
           (\<forall>r \<in> set (items (queue_objs (loop_head p s1) ! q)).
               conversation_id r = ?k \<and> sequence_number r < c) \<and>
           (\<forall>n r. (pending_objs (loop_head p s1) ! q) n = Some r \<longrightarrow>
                  conversation_id r = ?k \<and> sequence_number r = n \<and> n < c)"
          using c itm pnd by (auto simp: lh fr)
      qed (simp_all add: lh fr oth)
      show "proc_ok (loop_head p s1) (procs s ! x)" if "x < length (procs s)" "x \<noteq> p" for x
        by (rule proc_ok_other [OF i(1,4,3) p ndone that q]) (simp_all add: lh fr oth)
      show "proc_ok (loop_head p s1) ?P'"
        using q c unf by (simp add: proc_ok_def lh fr P1 in_loop_def has_request_def)
    qed (simp_all add: lh fr upd P1 lg ndone)
  next
    case (Some r)
    let ?P' = "P1\<lparr>next_request := Some r, p_pc := PSem\<rparr>"
    from Some have lh: "loop_head p s1 =
        s1\<lparr>pending_objs := (pending_objs s1)[q := (pending_objs s1 ! q)(?n := None)],
           procs := (procs s1)[p := ?P']\<rparr>"
      using loop_head_some [of s1 p r] by (simp add: P1n P1)
    from pnd Some have r: "conversation_id r = ?k" "sequence_number r = ?n" "?n < c"
      by blast+
    show ?thesis
    proof (rule fifo_inv_proc_step [OF inv, where p = p and P' = ?P'])
      show "key_ok (loop_head p s1)"
      proof (rule key_ok_update_at [OF i(1,2) q])
        show "\<exists>c. sequence_counters (loop_head p s1) ?k = Some c \<and>
           (\<forall>r \<in> set (items (queue_objs (loop_head p s1) ! q)).
               conversation_id r = ?k \<and> sequence_number r < c) \<and>
           (\<forall>n r. (pending_objs (loop_head p s1) ! q) n = Some r \<longrightarrow>
                  conversation_id r = ?k \<and> sequence_number r = n \<and> n < c)"
          using c itm pnd ql1 by (auto simp: lh fr)
      qed (simp_all add: lh fr oth)
      show "proc_ok (loop_head p s1) (procs s ! x)" if "x < length (procs s)" "x \<noteq> p" for x
        by (rule proc_ok_other [OF i(1,4,3) p ndone that q]) (simp_all add: lh fr oth)
      show "proc_ok (loop_head p s1) ?P'"
        using q c unf r by (simp add: proc_ok_def lh fr P1 in_loop_def has_request_def)
    qed (simp_all add: lh fr upd P1 lg ndone)
  qed
qed

lemma proc_ok_in_loopD:
  assumes "proc_ok s P" "in_loop (p_pc P)"
  obtains q c where "queues s (p_conversation P) = Some q"
    "sequence_counters s (p_conversation P) = Some c"
    "p_queue P = q" "p_pending P = q"
    "unfinished_tasks (queue_objs s ! q) + next_sequence P = c"
  using assms unfolding proc_ok_def in_loop_def by auto

lemma fifo_proc_get:
  assumes st: "proc_get p s = Some s'" and inv: "fifo_inv s"
  shows "fifo_inv s'"
proof -
  let ?P = "procs s ! p" and ?k = "p_conversation (procs s ! p)"
  from st have p: "p < length (procs s)" and pc: "p_pc ?P = PGet"
    and nc: "\<not> must_cancel ?P"
    by (auto simp: proc_get_def split: if_splits)
  note i = fifo_invD [OF inv]
  from pc have il: "in_loop (p_pc ?P)" by (simp add: in_loop_def)
  from proc_ok_in_loopD [OF procs_okD [OF i(3) p] il] obtain q c where
    q: "queues s ?k = Some q" and c: "sequence_counters s ?k = Some c"
    and pq: "p_queue ?P = q" "p_pending ?P = q"
    and unf: "unfinished_tasks (queue_objs s ! q) + next_sequence ?P = c"
    by blast
  from key_okD [OF i(2) q] c have ql: "q < length (queue_objs s)"
    and itm: "\<And>r. r \<in> set (items (queue_objs s ! q)) \<Longrightarrow>
                conversation_id r = ?k \<and> sequence_number r < c"
    and pnd: "\<And>n r. (pending_objs s ! q) n = Some r \<Longrightarrow>
                conversation_id r = ?k \<and> sequence_number r = n \<and> n < c"
    by (metis option.inject)+
  from i(1) ql have pl: "q < length (pending_objs s)" by (simp add: reg_ok_def)
  from st p pc nc pq obtain request rest where
    it: "items (queue_objs s ! q) = request # rest"
    by (cases "items (queue_objs s ! q)") (auto simp: proc_get_def Let_def)
  let ?s1 = "s\<lparr>queue_objs := (queue_objs s)[q := (queue_objs s ! q)\<lparr>items := rest\<rparr>],
                pending_objs := (pending_objs s)[q :=
                   (pending_objs s ! q)(sequence_number request \<mapsto> request)]\<rparr>"
  from st p pc nc pq it have s': "s' = loop_head p ?s1"
    by (simp add: proc_get_def Let_def)
  from itm [of request] it have rq: "conversation_id request = ?k" "sequence_number request < c"
    by simp_all
  show ?thesis
    unfolding s'
  proof (rule fifo_loop_head [OF inv p il q c, where ?P1.0 = ?P])
    show "procs ?s1 = (procs s)[p := ?P]" by simp
    show "unfinished_tasks (queue_objs ?s1 ! q) + next_sequence ?P = c"
      using unf ql by simp
    show "\<forall>r \<in> set (items (queue_objs ?s1 ! q)).
            conversation_id r = ?k \<and> sequence_number r < c"
      using itm it ql by simp
    show "\<forall>n r. (pending_objs ?s1 ! q) n = Some r \<longrightarrow>
            conversation_id r = ?k \<and> sequence_number r = n \<and> n < c"
      using pnd rq pl by auto
    show "length (log_seqs s p) = next_sequence ?P"
      using log_okD(3) [OF i(6) p] pc by simp
  qed (simp_all add: pq)
qed

lemma fifo_proc_finish:
  assumes st: "proc_finish p out s = Some s'" and inv: "fifo_inv s"
  shows "fifo_inv s'"
proof -
  let ?P = "procs s ! p" and ?k = "p_conversation (procs s ! p)"
  from st have p: "p < length (procs s)" and pc: "p_pc ?P = PRun"
    and nc: "\<not> must_cancel ?P"
    by (auto simp: proc_finish_def split: if_splits)
  from st obtain r where r: "next_request ?P = Some r"
    by (auto simp: proc_finish_def split: if_splits option.splits)
  note i = fifo_invD [OF inv]
  from pc have il: "in_loop (p_pc ?P)" by (simp add: in_loop_def)
  from proc_ok_in_loopD [OF procs_okD [OF i(3) p] il] obtain q c where
    q: "queues s ?k = Some q" and c: "sequence_counters s ?k = Some c"
    and pq: "p_queue ?P = q" "p_pending ?P = q"
    and unf: "unfinished_tasks (queue_objs s ! q) + next_sequence ?P = c"
    by blast
  from procs_okD [OF i(3) p] pc q c have lt: "next_sequence ?P < c"
    by (auto simp: proc_ok_def has_request_def)
  from key_okD [OF i(2) q] c have ql: "q < length (queue_objs s)"
    and itm: "\<And>r. r \<in> set (items (queue_objs s ! q)) \<Longrightarrow>
                conversation_id r = ?k \<and> sequence_number r < c"
    and pnd: "\<And>n r. (pending_objs s ! q) n = Some r \<Longrightarrow>
                conversation_id r = ?k \<and> sequence_number r = n \<and> n < c"
    by (metis option.inject)+
  show ?thesis
  proof (cases "out = CancelledInside")
    case True
    let ?P' = "?P\<lparr>p_pc := PFinally\<rparr>"
    from True st p pc nc r have s': "s' = s\<lparr>semaphore := semaphore s + 1,
                           procs := (procs s)[p := ?P']\<rparr>"
      by (simp add: proc_finish_def)
    show ?thesis
    proof (rule fifo_inv_proc_update [OF inv, where p = p and P' = ?P'])
      show "proc_ok s ?P'" using q c by (simp add: proc_ok_def in_loop_def has_request_def)
    qed (simp_all add: s' pc)
  next
    case False
    let ?s0 = "s\<lparr>futures := set_outcome (future r) out (futures s), semaphore := semaphore s + 1\<rparr>"
    let ?P1 = "?P\<lparr>next_sequence := next_sequence ?P + 1\<rparr>"
    let ?s1 = "?s0\<lparr>queue_objs := (queue_objs s)[q :=
                    (queue_objs s ! q)\<lparr>unfinished_tasks := unfinished_tasks (queue_objs s ! q) - 1\<rparr>],
                  procs := (procs s)[p := ?P1]\<rparr>"
    from unf lt have pos: "unfinished_tasks (queue_objs s ! q) \<noteq> 0" by simp
    from False st p pc nc r have "s' = task_done p ?s0"
      by (cases out) (simp_all add: proc_finish_def)
    with pos pq have s': "s' = loop_head p ?s1"
      by (simp add: task_done_def Let_def)
    show ?thesis
      unfolding s'
    proof (rule fifo_loop_head [OF inv p il q c, where ?P1.0 = ?P1])
      show "unfinished_tasks (queue_objs ?s1 ! q) + next_sequence ?P1 = c"
        using unf pos ql by simp
      show "\<forall>r \<in> set (items (queue_objs ?s1 ! q)).
              conversation_id r = ?k \<and> sequence_number r < c"
        using itm ql by simp
      show "\<forall>n r. (pending_objs ?s1 ! q) n = Some r \<longrightarrow>
              conversation_id r = ?k \<and> sequence_number r = n \<and> n < c"
        using pnd by auto
      show "length (log_seqs s p) = next_sequence ?P1"
        using log_okD(4) [OF i(6) p pc] by simp
    qed (simp_all add: pq)
  qed
qed

text \<open>What \<open>enqueue_request\<close> does when the key is registered, and when it is not.\<close>

lemma enqueue_registered:
  assumes "\<not> lock_held s" "queues s cid = Some q" "sequence_counters s cid = Some c"
    "pending_requests s cid = Some q"
  shows "enqueue_request cid t s =
     Some (s\<lparr>sequence_counters := (sequence_counters s)(cid \<mapsto> c + 1),
              futures := futures s @ [Pending],
              pending_objs := (pending_objs s)[q := (pending_objs s ! q)
                 (c \<mapsto> \<lparr>conversation_id = cid, task = t, future = length (futures s),
                         sequence_number = c\<rparr>)],
              queue_objs := (queue_objs s)[q := put
                 \<lparr>conversation_id = cid, task = t, future = length (futures s),
                  sequence_number = c\<rparr> (queue_objs s ! q)],
              callers := callers s @ [\<lparr>c_future = Some (length (futures s)), c_result = None\<rparr>]\<rparr>)"
  using assms by (simp add: enqueue_request_def get_queue_def Let_def)

lemma enqueue_fresh:
  assumes "\<not> lock_held s" "queues s cid = None"
    "length (pending_objs s) = length (queue_objs s)"
  shows "enqueue_request cid t s =
     Some (s\<lparr>queues := (queues s)(cid \<mapsto> length (queue_objs s)),
              sequence_counters := (sequence_counters s)(cid \<mapsto> 1),
              pending_requests := (pending_requests s)(cid \<mapsto> length (queue_objs s)),
              futures := futures s @ [Pending],
              pending_objs := pending_objs s @
                 [[0 \<mapsto> \<lparr>conversation_id = cid, task = t, future = length (futures s),
                         sequence_number = 0\<rparr>]],
              queue_objs := queue_objs s @
                 [\<lparr>items = [\<lparr>conversation_id = cid, task = t, future = length (futures s),
                             sequence_number = 0\<rparr>], unfinished_tasks = 1\<rparr>],
              procs := procs s @ [new_processor cid],
              tasks := tasks s @ [length (procs s)],
              callers := callers s @ [\<lparr>c_future = Some (length (futures s)), c_result = None\<rparr>]\<rparr>)"
proof -
  have u: "(pending_objs s @ [Map.empty])[length (queue_objs s) := m] = pending_objs s @ [m]"
    for m :: "nat \<rightharpoonup> queued_request"
    using list_update_length [of "pending_objs s" Map.empty "[]" m] assms(3) by simp
  have n: "(pending_objs s @ [Map.empty]) ! length (queue_objs s) = Map.empty"
    using nth_append_length [of "pending_objs s" Map.empty "[]"] assms(3) by simp
  from assms(1,2) show ?thesis
    by (simp add: enqueue_request_def get_queue_def Let_def put_def u n assms(3))
qed


lemma fifo_enqueue_registered:
  assumes inv: "fifo_inv s" and nl: "\<not> lock_held s" and q: "queues s cid = Some q"
    and st: "enqueue_request cid t s = Some s'"
  shows "fifo_inv s'"
proof -
  note i = fifo_invD [OF inv]
  from key_okD [OF i(2) q] obtain c where ql: "q < length (queue_objs s)"
    and c: "sequence_counters s cid = Some c"
    and itm: "\<And>r. r \<in> set (items (queue_objs s ! q)) \<Longrightarrow>
                conversation_id r = cid \<and> sequence_number r < c"
    and pnd: "\<And>n r. (pending_objs s ! q) n = Some r \<Longrightarrow>
                conversation_id r = cid \<and> sequence_number r = n \<and> n < c"
    by blast
  from i(1) q have pq: "pending_requests s cid = Some q" by (simp add: reg_ok_def)
  from i(1) ql have pl: "q < length (pending_objs s)" by (simp add: reg_ok_def)
  define r where "r = \<lparr>conversation_id = cid, task = t, future = length (futures s),
                        sequence_number = c\<rparr>"
  from st enqueue_registered [OF nl q c pq, of t]
  have s'full: "s' = s\<lparr>sequence_counters := (sequence_counters s)(cid \<mapsto> c + 1),
              futures := futures s @ [Pending],
              pending_objs := (pending_objs s)[q := (pending_objs s ! q)(c \<mapsto> r)],
              queue_objs := (queue_objs s)[q := put r (queue_objs s ! q)],
              callers := callers s @ [\<lparr>c_future = Some (length (futures s)), c_result = None\<rparr>]\<rparr>"
    by (simp add: r_def)
  then have s': "queues s' = queues s" "pending_requests s' = pending_requests s"
    "sequence_counters s' = (sequence_counters s)(cid \<mapsto> c + 1)"
    "pending_objs s' = (pending_objs s)[q := (pending_objs s ! q)(c \<mapsto> r)]"
    "queue_objs s' = (queue_objs s)[q := put r (queue_objs s ! q)]"
    "procs s' = procs s" "tasks s' = tasks s" "cleaners s' = cleaners s"
    "lock_held s' = lock_held s" "exec_log s' = exec_log s"
    by simp_all
  have rr: "conversation_id r = cid" "sequence_number r = c" by (simp_all add: r_def)
  have "reg_ok s'" by (rule reg_ok_frame [OF i(1)]) (simp_all add: s')
  moreover have "key_ok s'"
  proof (rule key_ok_update_at [OF i(1,2) q])
    show "\<exists>c. sequence_counters s' cid = Some c \<and>
           (\<forall>r \<in> set (items (queue_objs s' ! q)). conversation_id r = cid \<and> sequence_number r < c) \<and>
           (\<forall>n r. (pending_objs s' ! q) n = Some r \<longrightarrow>
                  conversation_id r = cid \<and> sequence_number r = n \<and> n < c)"
    proof (intro exI conjI)
      show "sequence_counters s' cid = Some (c + 1)" by (simp add: s')
      show "\<forall>x \<in> set (items (queue_objs s' ! q)). conversation_id x = cid \<and> sequence_number x < c + 1"
        using itm ql rr by (auto simp: s' put_def less_Suc_eq)
      show "\<forall>n x. (pending_objs s' ! q) n = Some x \<longrightarrow>
                  conversation_id x = cid \<and> sequence_number x = n \<and> n < c + 1"
        using pnd pl rr by (auto simp: s' less_Suc_eq split: if_splits)
    qed
  qed (simp_all add: s')
  moreover have "procs_ok s'"
    unfolding procs_ok_def s'(6)
  proof (intro allI impI)
    fix x assume x: "x < length (procs s)"
    let ?X = "procs s ! x"
    from procs_okD [OF i(3) x] have ok: "proc_ok s ?X" .
    show "proc_ok s' ?X"
    proof (cases "p_pc ?X = PDone")
      case True
      then show ?thesis by (simp add: proc_ok_def)
    next
      case nd: False
      show ?thesis
      proof (cases "p_conversation ?X = cid")
        case True
        have u: "unfinished_tasks (queue_objs s' ! q) = unfinished_tasks (queue_objs s ! q) + 1"
          using ql by (simp add: s' put_def)
        from ok nd True q c show ?thesis
          unfolding proc_ok_def by (auto simp: s'(1,3) u)
      next
        case False
        from ok nd obtain q' where q': "queues s (p_conversation ?X) = Some q'"
          by (auto simp: proc_ok_def)
        with i(1) q False have "q' \<noteq> q" unfolding reg_ok_def by metis
        then have "queue_objs s' ! q' = queue_objs s ! q'" by (simp add: s')
        with ok q' False show ?thesis by (simp add: proc_ok_def s'(1,3))
      qed
    qed
  qed
  moreover have "unique_ok s'" using i(4) by (simp add: unique_ok_def s')
  moreover have "sched_ok s'" using i(5) by (simp add: sched_ok_def s')
  moreover have "log_ok s'" using i(6) by (simp add: log_ok_def log_seqs_def s')
  ultimately show ?thesis by (simp add: fifo_inv_def)
qed


lemma fifo_enqueue_fresh:
  assumes inv: "fifo_inv s" and nl: "\<not> lock_held s" and q: "queues s cid = None"
    and st: "enqueue_request cid t s = Some s'"
  shows "fifo_inv s'"
proof -
  note i = fifo_invD [OF inv]
  from i(1) have len: "length (pending_objs s) = length (queue_objs s)"
    and pr: "pending_requests s = queues s"
    and inj: "\<And>k k' a. queues s k = Some a \<Longrightarrow> queues s k' = Some a \<Longrightarrow> k = k'"
    unfolding reg_ok_def by blast+
  define r where "r = \<lparr>conversation_id = cid, task = t, future = length (futures s),
                        sequence_number = 0\<rparr>"
  define qn where "qn = length (queue_objs s)"
  define pn where "pn = length (procs s)"
  from st enqueue_fresh [OF nl q len, of t]
  have s'full: "s' = s\<lparr>queues := (queues s)(cid \<mapsto> qn),
              sequence_counters := (sequence_counters s)(cid \<mapsto> 1),
              pending_requests := (pending_requests s)(cid \<mapsto> qn),
              futures := futures s @ [Pending],
              pending_objs := pending_objs s @ [[0 \<mapsto> r]],
              queue_objs := queue_objs s @ [\<lparr>items = [r], unfinished_tasks = 1\<rparr>],
              procs := procs s @ [new_processor cid],
              tasks := tasks s @ [pn],
              callers := callers s @ [\<lparr>c_future = Some (length (futures s)), c_result = None\<rparr>]\<rparr>"
    by (simp add: r_def qn_def pn_def)
  then have s': "queues s' = (queues s)(cid \<mapsto> qn)"
    "pending_requests s' = (pending_requests s)(cid \<mapsto> qn)"
    "sequence_counters s' = (sequence_counters s)(cid \<mapsto> 1)"
    "pending_objs s' = pending_objs s @ [[0 \<mapsto> r]]"
    "queue_objs s' = queue_objs s @ [\<lparr>items = [r], unfinished_tasks = 1\<rparr>]"
    "procs s' = procs s @ [new_processor cid]" "tasks s' = tasks s @ [pn]"
    "cleaners s' = cleaners s" "lock_held s' = lock_held s" "exec_log s' = exec_log s"
    by simp_all
  have rr: "conversation_id r = cid" "sequence_number r = 0" by (simp_all add: r_def)
  have bound: "a < qn" if "queues s k = Some a" for k a
    using key_okD [OF i(2) that] unfolding qn_def by blast
  have newq: "queue_objs s' ! qn = \<lparr>items = [r], unfinished_tasks = 1\<rparr>"
    "pending_objs s' ! qn = [0 \<mapsto> r]"
    using len by (simp_all add: s' qn_def nth_append)
  have oldq: "queue_objs s' ! a = queue_objs s ! a" "pending_objs s' ! a = pending_objs s ! a"
    if "a < qn" for a
    using that len by (simp_all add: s' qn_def nth_append)
  have oldp: "procs s' ! x = procs s ! x" if "x < pn" for x
    using that by (simp add: s' pn_def nth_append)
  have newp: "procs s' ! pn = new_processor cid" by (simp add: s' pn_def)
  have plen: "length (procs s') = Suc pn" by (simp add: s' pn_def)
  have unreg: "p_pc (procs s ! x) = PDone"
    if "x < pn" "p_conversation (procs s ! x) = cid" for x
  proof (rule ccontr)
    assume "p_pc (procs s ! x) \<noteq> PDone"
    with procs_okD [OF i(3), of x] that have "queues s cid \<noteq> None"
      by (auto simp: proc_ok_def pn_def)
    with q show False by simp
  qed
  have "reg_ok s'"
    unfolding reg_ok_def
  proof (intro conjI allI impI)
    show "pending_requests s' = queues s'" by (simp add: s' pr)
    show "length (pending_objs s') = length (queue_objs s')" by (simp add: s' len)
    fix k k' a assume h: "queues s' k = Some a \<and> queues s' k' = Some a"
    show "k = k'"
    proof (cases "k = cid"; cases "k' = cid")
      assume "k = cid" "k' \<noteq> cid"
      with h bound [of k' a] show ?thesis by (simp add: s')
    next
      assume "k \<noteq> cid" "k' = cid"
      with h bound [of k a] show ?thesis by (simp add: s')
    next
      assume "k \<noteq> cid" "k' \<noteq> cid"
      with h inj [of k a k'] show ?thesis by (simp add: s')
    qed simp
  qed
  moreover have "key_ok s'"
    unfolding key_ok_def
  proof (intro allI impI)
    fix k a assume h: "queues s' k = Some a"
    show "a < length (queue_objs s') \<and>
        (\<exists>c. sequence_counters s' k = Some c \<and>
           (\<forall>x \<in> set (items (queue_objs s' ! a)). conversation_id x = k \<and> sequence_number x < c) \<and>
           (\<forall>n x. (pending_objs s' ! a) n = Some x \<longrightarrow>
                  conversation_id x = k \<and> sequence_number x = n \<and> n < c))"
    proof (cases "k = cid")
      case True
      with h have a: "a = qn" by (simp add: s')
      have "a < length (queue_objs s')" by (simp add: a s' qn_def)
      moreover have "sequence_counters s' k = Some 1" by (simp add: True s')
      moreover have "\<forall>x \<in> set (items (queue_objs s' ! a)).
                       conversation_id x = k \<and> sequence_number x < 1"
        by (simp add: a newq rr True)
      moreover have "\<forall>n x. (pending_objs s' ! a) n = Some x \<longrightarrow>
                  conversation_id x = k \<and> sequence_number x = n \<and> n < 1"
        by (auto simp: a newq rr True split: if_splits)
      ultimately show ?thesis by blast
    next
      case False
      with h have a: "queues s k = Some a" by (simp add: s')
      from False have cnt: "sequence_counters s' k = sequence_counters s k" by (simp add: s')
      have al: "a < length (queue_objs s')" using bound [OF a] by (simp add: s' qn_def)
      from i(2) a have "\<exists>c. sequence_counters s k = Some c \<and>
           (\<forall>x \<in> set (items (queue_objs s ! a)). conversation_id x = k \<and> sequence_number x < c) \<and>
           (\<forall>n x. (pending_objs s ! a) n = Some x \<longrightarrow>
                  conversation_id x = k \<and> sequence_number x = n \<and> n < c)"
        unfolding key_ok_def by blast
      then have "\<exists>c. sequence_counters s' k = Some c \<and>
           (\<forall>x \<in> set (items (queue_objs s' ! a)). conversation_id x = k \<and> sequence_number x < c) \<and>
           (\<forall>n x. (pending_objs s' ! a) n = Some x \<longrightarrow>
                  conversation_id x = k \<and> sequence_number x = n \<and> n < c)"
        by (simp only: cnt oldq [OF bound [OF a]])
      with al show ?thesis by blast
    qed
  qed
  moreover have "procs_ok s'"
    unfolding procs_ok_def plen
  proof (intro allI impI)
    fix x assume "x < Suc pn"
    then consider "x = pn" | "x < pn" by linarith
    then show "proc_ok s' (procs s' ! x)"
    proof cases
      case 1
      show ?thesis
        unfolding 1 newp
        by (simp add: proc_ok_def new_processor_def s'(1,3) newq in_loop_def has_request_def)
    next
      case 2
      let ?X = "procs s ! x"
      from 2 procs_okD [OF i(3), of x] have ok: "proc_ok s ?X" by (simp add: pn_def)
      show ?thesis
        unfolding oldp [OF 2]
      proof (cases "p_pc ?X = PDone")
        case True
        then show "proc_ok s' ?X" by (simp add: proc_ok_def)
      next
        case nd: False
        with unreg [OF 2] have ne: "p_conversation ?X \<noteq> cid" by blast
        from ok nd obtain q' where q': "queues s (p_conversation ?X) = Some q'"
          by (auto simp: proc_ok_def)
        from oldq(1) [OF bound [OF q']] ok q' ne show "proc_ok s' ?X"
          by (simp add: proc_ok_def s'(1,3))
      qed
    qed
  qed
  moreover have "unique_ok s'"
    unfolding unique_ok_def plen
  proof (intro allI impI)
    fix a b
    assume h: "a < Suc pn \<and> b < Suc pn \<and> a \<noteq> b \<and>
               p_conversation (procs s' ! a) = p_conversation (procs s' ! b)"
    then have ab: "a < Suc pn" "b < Suc pn" "a \<noteq> b"
      and e: "p_conversation (procs s' ! a) = p_conversation (procs s' ! b)" by simp_all
    consider "a < pn" "b < pn" | "a = pn" "b < pn" | "a < pn" "b = pn"
      using ab by linarith
    then show "p_pc (procs s' ! a) = PDone \<or> p_pc (procs s' ! b) = PDone"
    proof cases
      case 1
      with e have "p_conversation (procs s ! a) = p_conversation (procs s ! b)"
        by (simp add: oldp)
      with i(4) 1 ab(3) have "p_pc (procs s ! a) = PDone \<or> p_pc (procs s ! b) = PDone"
        unfolding unique_ok_def pn_def by blast
      with 1 show ?thesis by (simp add: oldp)
    next
      case 2
      with e have "p_conversation (procs s ! b) = cid"
        by (simp add: oldp newp new_processor_def)
      from unreg [OF 2(2) this] 2 show ?thesis by (simp add: oldp)
    next
      case 3
      with e have "p_conversation (procs s ! a) = cid"
        by (simp add: oldp newp new_processor_def)
      from unreg [OF 3(1) this] 3 show ?thesis by (simp add: oldp)
    qed
  qed
  moreover have "sched_ok s'"
  proof -
    have "x \<in> set (tasks s')" if "x < Suc pn" "p_pc (procs s' ! x) \<noteq> PDone" for x
    proof (cases "x = pn")
      case True
      then show ?thesis by (simp add: s')
    next
      case False
      with that have x: "x < pn" by simp
      with that(2) have "p_pc (procs s ! x) \<noteq> PDone" by (simp add: oldp)
      with i(5) x have "x \<in> set (tasks s)" unfolding sched_ok_def pn_def by blast
      then show ?thesis by (simp add: s')
    qed
    moreover from i(5) nl have "\<forall>j < length (cleaners s). cl_done (cleaners s ! j)"
      unfolding sched_ok_def by blast
    then have "\<forall>j < length (cleaners s'). cl_done (cleaners s' ! j)" by (simp add: s'(8))
    ultimately show ?thesis unfolding sched_ok_def plen by blast
  qed
  moreover have "log_ok s'"
  proof -
    have ls: "log_seqs s' x = log_seqs s x" for x by (simp add: log_seqs_def s')
    have ent: "fst e < pn \<and> conversation_id (snd e) = p_conversation (procs s ! fst e)"
      if "e \<in> set (exec_log s)" for e
      using that i(6) unfolding log_ok_def pn_def by blast
    have a: "fst e < Suc pn \<and> conversation_id (snd e) = p_conversation (procs s' ! fst e)"
      if "e \<in> set (exec_log s')" for e
      using ent [of e] that by (simp add: s'(10) oldp)
    have empty: "log_seqs s pn = []"
    proof -
      have "filter (\<lambda>e. fst e = pn) (exec_log s) = []"
        using ent by (auto simp: filter_empty_conv)
      then show ?thesis by (simp add: log_seqs_def)
    qed
    have b: "log_seqs s x = [0 ..< length (log_seqs s x)] \<and>
        (p_pc (procs s' ! x) = PNew \<longrightarrow> log_seqs s x = []) \<and>
        (p_pc (procs s' ! x) = PGet \<or> p_pc (procs s' ! x) = PSem \<longrightarrow>
           length (log_seqs s x) = next_sequence (procs s' ! x)) \<and>
        (p_pc (procs s' ! x) = PRun \<longrightarrow>
           length (log_seqs s x) = next_sequence (procs s' ! x) + 1)"
      if "x < Suc pn" for x
    proof (cases "x = pn")
      case True
      then show ?thesis by (simp add: empty newp new_processor_def)
    next
      case False
      with that have x: "x < pn" by simp
      then have "x < length (procs s)" by (simp add: pn_def)
      from log_okD [OF i(6) this] show ?thesis by (simp add: oldp [OF x])
    qed
    from a b show ?thesis unfolding log_ok_def plen ls by blast
  qed
  ultimately show ?thesis by (simp add: fifo_inv_def)
qed

lemma fifo_enqueue:
  assumes "enqueue_request cid t s = Some s'" "fifo_inv s"
  shows "fifo_inv s'"
proof -
  from assms(1) have nl: "\<not> lock_held s"
    by (auto simp: enqueue_request_def split: if_splits)
  show ?thesis
  proof (cases "queues s cid")
    case None
    from fifo_enqueue_fresh [OF assms(2) nl None assms(1)] show ?thesis .
  next
    case (Some q)
    from fifo_enqueue_registered [OF assms(2) nl Some assms(1)] show ?thesis .
  qed
qed

lemma fifo_step: "step ev s = Some s' \<Longrightarrow> fifo_inv s \<Longrightarrow> fifo_inv s'"
  by (cases ev)
     (simp_all add: fifo_enqueue fifo_caller_return fifo_caller_timeout fifo_proc_start
        fifo_proc_get fifo_proc_acquire fifo_proc_finish fifo_proc_cancelled
        fifo_proc_teardown fifo_cleanup_begin fifo_cleanup_end fifo_acquire_enter
        fifo_acquire_slot fifo_acquire_exit fifo_acquire_leave)

lemma fifo_run: "run evs s = Some s' \<Longrightarrow> fifo_inv s \<Longrightarrow> fifo_inv s'"
proof (induction evs arbitrary: s)
  case Nil
  then show ?case by simp
next
  case (Cons ev evs)
  then obtain s1 where s1: "step ev s = Some s1" and r: "run evs s1 = Some s'"
    by (auto split: option.splits)
  from Cons.IH [OF r fifo_step [OF s1 Cons.prems(2)]] show ?case .
qed

lemma fifo_new: "new_request_queue mc = Some s0 \<Longrightarrow> fifo_inv s0"
  by (auto simp: new_request_queue_def fifo_inv_def reg_ok_def key_ok_def procs_ok_def
        unique_ok_def sched_ok_def log_ok_def split: if_splits)

text \<open>
  Claim C1. In every state that a run reaches from a freshly constructed queue, whatever
  the order of submissions, processor steps, task completions, timeouts and cleanups:
  \<^item> the sequence numbers of the requests a processor has begun to execute are
    \<open>0, 1, 2, ...\<close> in exactly this order, without gap or repetition (a key's counter
    starts at \<open>0\<close> when the key's state is created, and the processor is created with it);
  \<^item> each executed request is a request of the processor's key, and the request a
    processor is executing is the one numbered \<open>next_sequence\<close>;
  \<^item> of two processors of one key at least one is finished, so no two executions for
    the same key overlap.
\<close>

theorem per_key_execution_order:
  assumes "new_request_queue mc = Some s0" and "run evs s0 = Some s"
  shows "(\<forall>p < length (procs s). log_seqs s p = [0 ..< length (log_seqs s p)])
     \<and> (\<forall>e \<in> set (exec_log s). fst e < length (procs s) \<and>
            conversation_id (snd e) = p_conversation (procs s ! fst e))
     \<and> (\<forall>p < length (procs s). p_pc (procs s ! p) = PRun \<longrightarrow>
            length (log_seqs s p) = next_sequence (procs s ! p) + 1 \<and>
            (\<exists>r. next_request (procs s ! p) = Some r \<and>
                 sequence_number r = next_sequence (procs s ! p)))
     \<and> (\<forall>p p'. p < length (procs s) \<and> p' < length (procs s) \<and> p \<noteq> p' \<and>
            p_conversation (procs s ! p) = p_conversation (procs s ! p') \<longrightarrow>
            p_pc (procs s ! p) = PDone \<or> p_pc (procs s ! p') = PDone)
     \<and> (\<forall>p p'. p < length (procs s) \<and> p' < length (procs s) \<and>
            p_pc (procs s ! p) = PRun \<and> p_pc (procs s ! p') = PRun \<and>
            p_conversation (procs s ! p) = p_conversation (procs s ! p') \<longrightarrow> p = p')"
proof -
  from fifo_run [OF assms(2) fifo_new [OF assms(1)]] have inv: "fifo_inv s" .
  note i = fifo_invD [OF inv]
  have a: "\<forall>p < length (procs s). log_seqs s p = [0 ..< length (log_seqs s p)]"
    using i(6) unfolding log_ok_def by blast
  have b: "\<forall>e \<in> set (exec_log s). fst e < length (procs s) \<and>
            conversation_id (snd e) = p_conversation (procs s ! fst e)"
    using i(6) unfolding log_ok_def by blast
  have c: "\<forall>p < length (procs s). p_pc (procs s ! p) = PRun \<longrightarrow>
            length (log_seqs s p) = next_sequence (procs s ! p) + 1 \<and>
            (\<exists>r. next_request (procs s ! p) = Some r \<and>
                 sequence_number r = next_sequence (procs s ! p))"
  proof (intro allI impI)
    fix p assume p: "p < length (procs s)" and pc: "p_pc (procs s ! p) = PRun"
    from procs_okD [OF i(3) p] pc
    have "\<exists>r. next_request (procs s ! p) = Some r \<and>
               sequence_number r = next_sequence (procs s ! p)"
      by (auto simp: proc_ok_def has_request_def)
    with log_okD(4) [OF i(6) p pc]
    show "length (log_seqs s p) = next_sequence (procs s ! p) + 1 \<and>
            (\<exists>r. next_request (procs s ! p) = Some r \<and>
                 sequence_number r = next_sequence (procs s ! p))" by blast
  qed
  have d: "\<forall>p p'. p < length (procs s) \<and> p' < length (procs s) \<and> p \<noteq> p' \<and>
            p_conversation (procs s ! p) = p_conversation (procs s ! p') \<longrightarrow>
            p_pc (procs s ! p) = PDone \<or> p_pc (procs s ! p') = PDone"
    using i(4) unfolding unique_ok_def .
  have e: "\<forall>p p'. p < length (procs s) \<and> p' < length (procs s) \<and>
            p_pc (procs s ! p) = PRun \<and> p_pc (procs s ! p') = PRun \<and>
            p_conversation (procs s ! p) = p_conversation (procs s ! p') \<longrightarrow> p = p'"
  proof (intro allI impI)
    fix p p'
    assume h: "p < length (procs s) \<and> p' < length (procs s) \<and>
            p_pc (procs s ! p) = PRun \<and> p_pc (procs s ! p') = PRun \<and>
            p_conversation (procs s ! p) = p_conversation (procs s ! p')"
    show "p = p'"
    proof (rule ccontr)
      assume "p \<noteq> p'"
      with d h have "p_pc (procs s ! p) = PDone \<or> p_pc (procs s ! p') = PDone" by blast
      with h show False by auto
    qed
  qed
  from a b c d e show ?thesis by blast
qed

theorem per_key_execution_order_witness:
  "run fifo_demo (the (new_request_queue 2)) \<noteq> None \<and>
   log_seqs (the (run fifo_demo (the (new_request_queue 2)))) 0 = [0, 1, 2] \<and>
   map (\<lambda>e. task (snd e)) (exec_log (the (run fifo_demo (the (new_request_queue 2)))))
     = [100, 101, 102]"
proof -
  have n: "new_request_queue 2 = Some (the (new_request_queue 2))"
    by (simp add: new_request_queue_def)
  have r: "run fifo_demo (the (new_request_queue 2)) =
           Some (the (run fifo_demo (the (new_request_queue 2))))"
    by (simp add: fifo_demo_def step_defs)
  from per_key_execution_order [OF n r] r show ?thesis
    by (simp add: fifo_demo_def step_defs log_seqs_def)
qed

subsection \<open>Failure isolation\<close>

text \<open>The state after a task has ended with a result, an exception or a timeout, in a
  state that satisfies the invariant.\<close>

lemma proc_finish_effect:
  assumes inv: "fifo_inv s" and p: "p < length (procs s)"
    and pc: "p_pc (procs s ! p) = PRun" and nc: "\<not> must_cancel (procs s ! p)"
    and out: "out \<noteq> CancelledInside"
  shows "\<exists>r s'. next_request (procs s ! p) = Some r
     \<and> sequence_number r = next_sequence (procs s ! p)
     \<and> proc_finish p out s = Some s'
     \<and> futures s' = set_outcome (future r) out (futures s)
     \<and> semaphore s' = semaphore s + 1 \<and> exec_log s' = exec_log s
     \<and> length (procs s') = length (procs s)
     \<and> next_sequence (procs s' ! p) = next_sequence (procs s ! p) + 1
     \<and> \<not> must_cancel (procs s' ! p)
     \<and> p_pending (procs s' ! p) = p_pending (procs s ! p)
     \<and> (case (pending_objs s ! p_pending (procs s ! p)) (next_sequence (procs s ! p) + 1) of
           Some r' \<Rightarrow> p_pc (procs s' ! p) = PSem \<and> next_request (procs s' ! p) = Some r'
         | None \<Rightarrow> p_pc (procs s' ! p) = PGet)
     \<and> (\<forall>i. i \<noteq> next_sequence (procs s ! p) + 1 \<longrightarrow>
            (pending_objs s' ! p_pending (procs s ! p)) i =
            (pending_objs s ! p_pending (procs s ! p)) i)
     \<and> (\<forall>out'. out' \<noteq> CancelledInside \<longrightarrow>
            proc_finish p out' s =
              Some (s'\<lparr>futures := set_outcome (future r) out' (futures s)\<rparr>))"
proof -
  let ?P = "procs s ! p" and ?k = "p_conversation (procs s ! p)"
  let ?n = "next_sequence (procs s ! p)"
  note i = fifo_invD [OF inv]
  from pc have il: "in_loop (p_pc ?P)" by (simp add: in_loop_def)
  from proc_ok_in_loopD [OF procs_okD [OF i(3) p] il] obtain q c where
    q: "queues s ?k = Some q" and c: "sequence_counters s ?k = Some c"
    and pq: "p_queue ?P = q" "p_pending ?P = q"
    and unf: "unfinished_tasks (queue_objs s ! q) + ?n = c"
    by blast
  from procs_okD [OF i(3) p] pc q c obtain r where lt: "?n < c"
    and r: "next_request ?P = Some r" and rs: "sequence_number r = ?n"
    by (auto simp: proc_ok_def has_request_def)
  from key_okD [OF i(2) q] have ql: "q < length (queue_objs s)" by blast
  with i(1) have pl: "q < length (pending_objs s)" by (simp add: reg_ok_def)
  from unf lt have pos: "unfinished_tasks (queue_objs s ! q) \<noteq> 0" by simp
  define base where "base fs = s\<lparr>futures := fs, semaphore := semaphore s + 1,
        queue_objs := (queue_objs s)[q :=
           (queue_objs s ! q)\<lparr>unfinished_tasks := unfinished_tasks (queue_objs s ! q) - 1\<rparr>],
        procs := (procs s)[p := ?P\<lparr>next_sequence := ?n + 1\<rparr>]\<rparr>" for fs
  have fin: "proc_finish p o' s = Some (loop_head p (base (set_outcome (future r) o' (futures s))))"
    if "o' \<noteq> CancelledInside" for o'
    using that p pc nc r pos pq
    by (cases o') (simp_all add: proc_finish_def task_done_def Let_def base_def)
  have bp: "procs (base fs) ! p = ?P\<lparr>next_sequence := ?n + 1\<rparr>"
    "pending_objs (base fs) = pending_objs s" "futures (base fs) = fs" for fs
    using p by (simp_all add: base_def)
  define s' where "s' = loop_head p (base (set_outcome (future r) out (futures s)))"
  have indep: "loop_head p (base fs) = (loop_head p (base fs'))\<lparr>futures := fs\<rparr>" for fs fs'
    by (simp add: loop_head_def Let_def base_def split: option.splits)
  show ?thesis
  proof (cases "(pending_objs s ! q) (?n + 1)")
    case None
    have lh: "loop_head p (base fs) =
        (base fs)\<lparr>procs := (procs (base fs))[p := (procs (base fs) ! p)\<lparr>p_pc := PGet\<rparr>]\<rparr>" for fs
      by (rule loop_head_none) (use None in \<open>simp add: bp pq\<close>)
    have "proc_finish p out s = Some s'" using fin [OF out] by (simp add: s'_def)
    moreover have "futures s' = set_outcome (future r) out (futures s)"
      "semaphore s' = semaphore s + 1" "exec_log s' = exec_log s"
      "length (procs s') = length (procs s)"
      "next_sequence (procs s' ! p) = ?n + 1" "\<not> must_cancel (procs s' ! p)"
      "p_pending (procs s' ! p) = p_pending ?P" "p_pc (procs s' ! p) = PGet"
      "pending_objs s' = pending_objs s"
      using p nc unfolding s'_def lh by (simp_all add: base_def)
    moreover have "proc_finish p out' s =
        Some (s'\<lparr>futures := set_outcome (future r) out' (futures s)\<rparr>)"
      if "out' \<noteq> CancelledInside" for out'
      unfolding fin [OF that] s'_def using indep by simp
    ultimately show ?thesis using r rs None pq by (intro exI [of _ r] exI [of _ s']) simp
  next
    case (Some r')
    have lh: "loop_head p (base fs) =
        (base fs)\<lparr>pending_objs := (pending_objs (base fs))[q :=
              (pending_objs (base fs) ! q)(?n + 1 := None)],
           procs := (procs (base fs))[p := (procs (base fs) ! p)
              \<lparr>next_request := Some r', p_pc := PSem\<rparr>]\<rparr>" for fs
      using loop_head_some [of "base fs" p r'] Some by (simp add: bp pq)
    have "proc_finish p out s = Some s'" using fin [OF out] by (simp add: s'_def)
    moreover have "futures s' = set_outcome (future r) out (futures s)"
      "semaphore s' = semaphore s + 1" "exec_log s' = exec_log s"
      "length (procs s') = length (procs s)"
      "next_sequence (procs s' ! p) = ?n + 1" "\<not> must_cancel (procs s' ! p)"
      "p_pending (procs s' ! p) = p_pending ?P" "p_pc (procs s' ! p) = PSem"
      "next_request (procs s' ! p) = Some r'"
      "\<forall>i. i \<noteq> ?n + 1 \<longrightarrow> (pending_objs s' ! q) i = (pending_objs s ! q) i"
      using p nc pl unfolding s'_def lh by (simp_all add: base_def)
    moreover have "proc_finish p out' s =
        Some (s'\<lparr>futures := set_outcome (future r) out' (futures s)\<rparr>)"
      if "out' \<noteq> CancelledInside" for out'
      unfolding fin [OF that] s'_def using indep by simp
    ultimately show ?thesis using r rs Some pq by (intro exI [of _ r] exI [of _ s']) simp
  qed
qed

lemma proc_acquire_effect:
  assumes inv: "fifo_inv s" and p: "p < length (procs s)"
    and pc: "p_pc (procs s ! p) = PSem" and nc: "\<not> must_cancel (procs s ! p)"
    and sem: "0 < semaphore s"
  shows "\<exists>s'. proc_acquire p s = Some s'
     \<and> semaphore s' = semaphore s - 1 \<and> pending_objs s' = pending_objs s
     \<and> length (procs s') = length (procs s) \<and> p_pc (procs s' ! p) = PRun
     \<and> next_sequence (procs s' ! p) = next_sequence (procs s ! p)
     \<and> \<not> must_cancel (procs s' ! p)
     \<and> p_pending (procs s' ! p) = p_pending (procs s ! p)
     \<and> log_seqs s' p = log_seqs s p @ [next_sequence (procs s ! p)]"
proof -
  note i = fifo_invD [OF inv]
  from procs_okD [OF i(3) p] pc obtain r where
    r: "next_request (procs s ! p) = Some r" "sequence_number r = next_sequence (procs s ! p)"
    by (auto simp: proc_ok_def has_request_def)
  let ?s' = "s\<lparr>semaphore := semaphore s - 1,
               procs := (procs s)[p := (procs s ! p)\<lparr>p_pc := PRun\<rparr>],
               exec_log := exec_log s @ [(p, r)]\<rparr>"
  from p pc nc sem r have "proc_acquire p s = Some ?s'" by (simp add: proc_acquire_def)
  moreover have "log_seqs ?s' p = log_seqs s p @ [next_sequence (procs s ! p)]"
    using r by (simp add: log_seqs_def)
  ultimately show ?thesis using p nc by (intro exI [of _ ?s']) simp
qed

lemma serve_run:
  assumes "fifo_inv s" and "p < length (procs s)" and "\<not> must_cancel (procs s ! p)"
    and "0 < semaphore s" and "CancelledInside \<notin> set outs"
    and "p_pc (procs s ! p) = PSem \<or> (outs = [] \<and> p_pc (procs s ! p) = PGet)"
    and "\<forall>i. next_sequence (procs s ! p) < i \<and>
             i < next_sequence (procs s ! p) + length outs \<longrightarrow>
             (pending_objs s ! p_pending (procs s ! p)) i \<noteq> None"
  shows "\<exists>s'. run (serve p outs) s = Some s'
     \<and> log_seqs s' p =
         log_seqs s p @ [next_sequence (procs s ! p) ..<
                         next_sequence (procs s ! p) + length outs]
     \<and> (p_pc (procs s' ! p) = PSem \<or> p_pc (procs s' ! p) = PGet)
     \<and> next_sequence (procs s' ! p) = next_sequence (procs s ! p) + length outs"
  using assms
proof (induction outs arbitrary: s)
  case Nil
  then show ?case by auto
next
  case (Cons out rest)
  let ?n = "next_sequence (procs s ! p)" and ?a = "p_pending (procs s ! p)"
  from Cons.prems(6) have pc: "p_pc (procs s ! p) = PSem" by simp
  from Cons.prems(5) have out: "out \<noteq> CancelledInside" and rest: "CancelledInside \<notin> set rest"
    by auto
  from proc_acquire_effect [OF Cons.prems(1,2) pc Cons.prems(3,4)] obtain s1 where
    a: "proc_acquire p s = Some s1" "semaphore s1 = semaphore s - 1"
      "pending_objs s1 = pending_objs s" "length (procs s1) = length (procs s)"
      "p_pc (procs s1 ! p) = PRun" "next_sequence (procs s1 ! p) = ?n"
      "\<not> must_cancel (procs s1 ! p)" "p_pending (procs s1 ! p) = ?a"
      "log_seqs s1 p = log_seqs s p @ [?n]"
    by blast
  from fifo_proc_acquire [OF a(1) Cons.prems(1)] have inv1: "fifo_inv s1" .
  from a(4) Cons.prems(2) have p1: "p < length (procs s1)" by simp
  from proc_finish_effect [OF inv1 p1 a(5) a(7) out] obtain s2 where
    f: "proc_finish p out s1 = Some s2" "semaphore s2 = semaphore s1 + 1"
      "exec_log s2 = exec_log s1" "length (procs s2) = length (procs s1)"
      "next_sequence (procs s2 ! p) = next_sequence (procs s1 ! p) + 1"
      "\<not> must_cancel (procs s2 ! p)"
      "p_pending (procs s2 ! p) = p_pending (procs s1 ! p)"
      "case (pending_objs s1 ! p_pending (procs s1 ! p)) (next_sequence (procs s1 ! p) + 1) of
           Some r' \<Rightarrow> p_pc (procs s2 ! p) = PSem \<and> next_request (procs s2 ! p) = Some r'
         | None \<Rightarrow> p_pc (procs s2 ! p) = PGet"
      "\<forall>i. i \<noteq> next_sequence (procs s1 ! p) + 1 \<longrightarrow>
            (pending_objs s2 ! p_pending (procs s1 ! p)) i =
            (pending_objs s1 ! p_pending (procs s1 ! p)) i"
    by blast
  from fifo_proc_finish [OF f(1) inv1] have inv2: "fifo_inv s2" .
  have n2: "next_sequence (procs s2 ! p) = ?n + 1" using f(5) a(6) by simp
  have a2: "p_pending (procs s2 ! p) = ?a" using f(7) a(8) by simp
  have pc2: "p_pc (procs s2 ! p) = PSem \<or> (rest = [] \<and> p_pc (procs s2 ! p) = PGet)"
  proof (cases "(pending_objs s ! ?a) (?n + 1)")
    case None
    with Cons.prems(7) have "rest = []"
      by (cases rest) (auto dest: spec [of _ "?n + 1"])
    with f(8) None show ?thesis by (simp add: a)
  next
    case (Some r')
    with f(8) show ?thesis by (simp add: a)
  qed
  have pend2: "\<forall>i. next_sequence (procs s2 ! p) < i \<and>
             i < next_sequence (procs s2 ! p) + length rest \<longrightarrow>
             (pending_objs s2 ! p_pending (procs s2 ! p)) i \<noteq> None"
  proof (intro allI impI)
    fix i assume "next_sequence (procs s2 ! p) < i \<and>
                  i < next_sequence (procs s2 ! p) + length rest"
    then have i: "?n + 1 < i" "i < ?n + length (out # rest)" by (simp_all add: n2)
    with f(9) have "(pending_objs s2 ! ?a) i = (pending_objs s ! ?a) i" by (simp add: a)
    moreover from Cons.prems(7) i have "(pending_objs s ! ?a) i \<noteq> None" by simp
    ultimately show "(pending_objs s2 ! p_pending (procs s2 ! p)) i \<noteq> None"
      by (simp add: a2)
  qed
  have sem2: "0 < semaphore s2" using f(2) a(2) Cons.prems(4) by simp
  have p2: "p < length (procs s2)" using f(4) p1 by simp
  from Cons.IH [OF inv2 p2 f(6) sem2 rest pc2 pend2] obtain s' where
    r: "run (serve p rest) s2 = Some s'"
      "log_seqs s' p = log_seqs s2 p @ [?n + 1 ..< ?n + 1 + length rest]"
      "p_pc (procs s' ! p) = PSem \<or> p_pc (procs s' ! p) = PGet"
      "next_sequence (procs s' ! p) = ?n + 1 + length rest"
    unfolding n2 by blast
  have l2: "log_seqs s2 p = log_seqs s p @ [?n]"
    using a(9) f(3) by (simp add: log_seqs_def)
  have "run (serve p (out # rest)) s = Some s'" using a(1) f(1) r(1) by simp
  moreover have "log_seqs s' p = log_seqs s p @ [?n ..< ?n + length (out # rest)]"
  proof -
    have "[?n ..< ?n + length (out # rest)] = ?n # [?n + 1 ..< ?n + 1 + length rest]"
      using upt_conv_Cons [of ?n "?n + length (out # rest)"] by simp
    with r(2) l2 show ?thesis by simp
  qed
  ultimately show ?case using r(3,4) by (intro exI [of _ s']) simp
qed


text \<open>
  Claim C6. Let a run from a freshly constructed queue reach a state where processor
  \<open>p\<close> is executing the request numbered \<open>k\<close>, and let the task raise an exception
  \<open>e\<close>. Then the step is taken by the handler around the task: the exception is stored in
  that request's future (unless the future is already done), and nothing else differs
  from the state that a returned value would have produced. The processor stays in its
  loop with \<open>next_sequence = k + 1\<close>. If the requests numbered \<open>k + 1, ..., k + m\<close> are
  pending, the processor executes them next, in this order, however their tasks end.
\<close>

theorem task_error_isolated:
  assumes "new_request_queue mc = Some s0" and "run evs s0 = Some s"
    and "p < length (procs s)" and "p_pc (procs s ! p) = PRun"
    and "\<not> must_cancel (procs s ! p)"
  shows "\<exists>r s'. next_request (procs s ! p) = Some r
     \<and> sequence_number r = next_sequence (procs s ! p)
     \<and> step (ProcFinish p (Raised e)) s = Some s'
     \<and> futures s' = (if futures s ! future r = Pending
                      then (futures s)[future r := Exception e] else futures s)
     \<and> (p_pc (procs s' ! p) = PGet \<or> p_pc (procs s' ! p) = PSem)
     \<and> next_sequence (procs s' ! p) = next_sequence (procs s ! p) + 1
     \<and> (\<forall>v. step (ProcFinish p (Returned v)) s =
              Some (s'\<lparr>futures := set_outcome (future r) (Returned v) (futures s)\<rparr>))
     \<and> (\<forall>outs. CancelledInside \<notin> set outs \<and>
            (\<forall>i. next_sequence (procs s ! p) < i \<and>
                 i \<le> next_sequence (procs s ! p) + length outs \<longrightarrow>
                 (pending_objs s ! p_pending (procs s ! p)) i \<noteq> None) \<longrightarrow>
            (\<exists>s''. run (ProcFinish p (Raised e) # serve p outs) s = Some s'' \<and>
                   log_seqs s'' p =
                     log_seqs s p @ [next_sequence (procs s ! p) + 1 ..<
                                     next_sequence (procs s ! p) + 1 + length outs]))"
proof -
  let ?n = "next_sequence (procs s ! p)" and ?a = "p_pending (procs s ! p)"
  from fifo_run [OF assms(2) fifo_new [OF assms(1)]] have inv: "fifo_inv s" .
  from gate_run [OF assms(2) gate_new [OF assms(1)]] have sem: "0 \<le> semaphore s"
    by (simp add: gate_inv_def)
  have ne: "Raised e \<noteq> CancelledInside" by simp
  from proc_finish_effect [OF inv assms(3,4,5) ne] obtain r s' where
    f: "next_request (procs s ! p) = Some r" "sequence_number r = ?n"
      "proc_finish p (Raised e) s = Some s'"
      "futures s' = set_outcome (future r) (Raised e) (futures s)"
      "semaphore s' = semaphore s + 1" "exec_log s' = exec_log s"
      "length (procs s') = length (procs s)"
      "next_sequence (procs s' ! p) = ?n + 1"
      "\<not> must_cancel (procs s' ! p)"
      "p_pending (procs s' ! p) = ?a"
      "case (pending_objs s ! ?a) (?n + 1) of
           Some r' \<Rightarrow> p_pc (procs s' ! p) = PSem \<and> next_request (procs s' ! p) = Some r'
         | None \<Rightarrow> p_pc (procs s' ! p) = PGet"
      "\<forall>i. i \<noteq> ?n + 1 \<longrightarrow> (pending_objs s' ! ?a) i = (pending_objs s ! ?a) i"
      "\<forall>out'. out' \<noteq> CancelledInside \<longrightarrow>
            proc_finish p out' s =
              Some (s'\<lparr>futures := set_outcome (future r) out' (futures s)\<rparr>)"
    by blast
  from fifo_proc_finish [OF f(3) inv] have inv': "fifo_inv s'" .
  have pc': "p_pc (procs s' ! p) = PGet \<or> p_pc (procs s' ! p) = PSem"
    using f(11) by (cases "(pending_objs s ! ?a) (?n + 1)") simp_all
  have fut: "futures s' = (if futures s ! future r = Pending
                      then (futures s)[future r := Exception e] else futures s)"
    using f(4) by (simp add: set_outcome_def)
  have ret: "step (ProcFinish p (Returned v)) s =
              Some (s'\<lparr>futures := set_outcome (future r) (Returned v) (futures s)\<rparr>)" for v
    using f(13) by simp
  have drain: "\<exists>s''. run (ProcFinish p (Raised e) # serve p outs) s = Some s'' \<and>
                   log_seqs s'' p = log_seqs s p @ [?n + 1 ..< ?n + 1 + length outs]"
    if nco: "CancelledInside \<notin> set outs"
      and pend: "\<forall>i. ?n < i \<and> i \<le> ?n + length outs \<longrightarrow> (pending_objs s ! ?a) i \<noteq> None"
    for outs
  proof -
    have p': "p < length (procs s')" using f(7) assms(3) by simp
    have sem': "0 < semaphore s'" using f(5) sem by simp
    have pcs: "p_pc (procs s' ! p) = PSem \<or> (outs = [] \<and> p_pc (procs s' ! p) = PGet)"
    proof (cases "(pending_objs s ! ?a) (?n + 1)")
      case None
      with pend have "outs = []" by (cases outs) (auto dest: spec [of _ "?n + 1"])
      with f(11) None show ?thesis by simp
    next
      case (Some r')
      with f(11) show ?thesis by simp
    qed
    have pend': "\<forall>i. next_sequence (procs s' ! p) < i \<and>
             i < next_sequence (procs s' ! p) + length outs \<longrightarrow>
             (pending_objs s' ! p_pending (procs s' ! p)) i \<noteq> None"
    proof (intro allI impI)
      fix i assume "next_sequence (procs s' ! p) < i \<and>
                    i < next_sequence (procs s' ! p) + length outs"
      then have i: "?n + 1 < i" "i \<le> ?n + length outs" by (simp_all add: f(8))
      with f(12) have "(pending_objs s' ! ?a) i = (pending_objs s ! ?a) i" by simp
      moreover from pend i have "(pending_objs s ! ?a) i \<noteq> None" by simp
      ultimately show "(pending_objs s' ! p_pending (procs s' ! p)) i \<noteq> None"
        by (simp add: f(10))
    qed
    from serve_run [OF inv' p' f(9) sem' nco pcs pend'] obtain s'' where
      r: "run (serve p outs) s' = Some s''"
        "log_seqs s'' p = log_seqs s' p @ [next_sequence (procs s' ! p) ..<
                         next_sequence (procs s' ! p) + length outs]"
      by blast
    have "log_seqs s' p = log_seqs s p" using f(6) by (simp add: log_seqs_def)
    with r f(3) f(8) show ?thesis by (intro exI [of _ s'']) simp
  qed
  from f(1,2,3,8) fut pc' ret drain show ?thesis
    by (intro exI [of _ r] exI [of _ s']) (simp only: step.simps, blast)
qed

theorem task_error_isolated_witness:
  "run three_queued (the (new_request_queue 2)) \<noteq> None \<and>
   (\<exists>s''. run (ProcFinish 0 (Raised (TaskError 9)) # serve 0 [Returned 5, TimedOut])
              (the (run three_queued (the (new_request_queue 2)))) = Some s'' \<and>
          log_seqs s'' 0 = [0, 1, 2])"
proof -
  let ?s = "the (run three_queued (the (new_request_queue 2)))"
  have n: "new_request_queue 2 = Some (the (new_request_queue 2))"
    by (simp add: new_request_queue_def)
  have r: "run three_queued (the (new_request_queue 2)) = Some ?s"
    by (simp add: three_queued_def step_defs)
  have p: "0 < length (procs ?s)" "p_pc (procs ?s ! 0) = PRun" "\<not> must_cancel (procs ?s ! 0)"
    by (simp_all add: three_queued_def step_defs)
  have nco: "CancelledInside \<notin> set [Returned 5, TimedOut]" by simp
  have pend: "\<forall>i. next_sequence (procs ?s ! 0) < i \<and>
                  i \<le> next_sequence (procs ?s ! 0) + length [Returned 5, TimedOut] \<longrightarrow>
                  (pending_objs ?s ! p_pending (procs ?s ! 0)) i \<noteq> None"
    by (simp add: three_queued_def step_defs)
  have l: "log_seqs ?s 0 = [0]" "next_sequence (procs ?s ! 0) = 0"
    by (simp_all add: three_queued_def step_defs log_seqs_def)
  from task_error_isolated [OF n r p, of "TaskError 9"] nco pend obtain s'' where
    a: "run (ProcFinish 0 (Raised (TaskError 9)) # serve 0 [Returned 5, TimedOut]) ?s = Some s''"
    and b: "log_seqs s'' 0 = log_seqs ?s 0 @ [next_sequence (procs ?s ! 0) + 1 ..<
               next_sequence (procs ?s ! 0) + 1 + length [Returned 5, TimedOut]]"
    by blast
  have "[(0::nat) + 1 ..< 0 + 1 + length [Returned 5, TimedOut]] = [1, 2]"
    by (simp add: upt_rec)
  with b l have "log_seqs s'' 0 = [0, 1, 2]" by simp
  with a r show ?thesis by blast
qed

subsection \<open>Shutdown\<close>

text \<open>
  Claim C2, as stated, asks that after \<open>cleanup\<close> has returned no Result Handle is left
  unresolved. \<open>cleanup\<close> has no statement that touches a future. In the run below a
  request is submitted and \<open>cleanup\<close> is called before the processor task has run
  (for instance \<open>gather(enqueue_request(...), cleanup())\<close>): the task is cancelled
  unstarted, \<open>cleanup\<close> returns with the dictionaries cleared, and the caller's future
  is still pending.
\<close>

theorem cleanup_leaves_handle_pending_counterexample:
  "run cleanup_before_start (the (new_request_queue 10)) \<noteq> None \<and>
   cleaners (the (run cleanup_before_start (the (new_request_queue 10))))
     = [\<lparr>cl_tasks = [0], cl_done = True\<rparr>] \<and>
   \<not> lock_held (the (run cleanup_before_start (the (new_request_queue 10)))) \<and>
   p_pc (procs (the (run cleanup_before_start (the (new_request_queue 10)))) ! 0) = PDone \<and>
   callers (the (run cleanup_before_start (the (new_request_queue 10))))
     = [\<lparr>c_future = Some 0, c_result = None\<rparr>] \<and>
   futures (the (run cleanup_before_start (the (new_request_queue 10)))) = [Pending]"
  by (simp add: cleanup_before_start_def step_defs)

text \<open>
  When the processor task has already run, it is suspended in \<open>queue.get()\<close>; the
  cancellation takes it to the \<open>finally\<close> block, which needs the lock that \<open>cleanup\<close>
  holds while it waits for the task. Neither can go on, and the future stays pending.
\<close>

lemma cleanup_after_start_stuck:
  "run cleanup_after_start (the (new_request_queue 10)) \<noteq> None \<and>
   lock_held (the (run cleanup_after_start (the (new_request_queue 10)))) \<and>
   cleaners (the (run cleanup_after_start (the (new_request_queue 10))))
     = [\<lparr>cl_tasks = [0], cl_done = False\<rparr>] \<and>
   p_pc (procs (the (run cleanup_after_start (the (new_request_queue 10)))) ! 0) = PFinally \<and>
   futures (the (run cleanup_after_start (the (new_request_queue 10)))) = [Pending] \<and>
   step (ProcTeardown 0) (the (run cleanup_after_start (the (new_request_queue 10)))) = None \<and>
   step (ProcCancelled 0) (the (run cleanup_after_start (the (new_request_queue 10)))) = None \<and>
   step (CleanupEnd 0) (the (run cleanup_after_start (the (new_request_queue 10)))) = None"
  by (simp add: cleanup_after_start_def step_defs)

text \<open>
  Claim C2, amended. \<open>cleanup\<close> requests the cancellation of every registered processor
  task that is not done. With no task registered it clears the dictionaries and returns
  at once; otherwise it holds the lock until every task of its list is done, and then
  clears the queue, counter and pending dictionaries and the task registry, releases
  the lock and returns. No step of \<open>cleanup\<close> changes a future or the result of a caller.
\<close>

theorem cleanup_cancels_and_clears:
  "(cleanup_begin s = Some s1 \<longrightarrow>
      futures s1 = futures s \<and> callers s1 = callers s \<and>
      (\<forall>t \<in> set (tasks s). t < length (procs s) \<and> p_pc (procs s ! t) \<noteq> PDone \<longrightarrow>
           must_cancel (procs s1 ! t)) \<and>
      (tasks s \<noteq> [] \<longrightarrow> lock_held s1 \<and>
           cleaners s1 = cleaners s @ [\<lparr>cl_tasks = tasks s, cl_done = False\<rparr>]) \<and>
      (tasks s = [] \<longrightarrow> queues s1 = Map.empty \<and> sequence_counters s1 = Map.empty \<and>
           pending_requests s1 = Map.empty \<and>
           cleaners s1 = cleaners s @ [\<lparr>cl_tasks = [], cl_done = True\<rparr>]))
   \<and> (cleanup_end j s = Some s2 \<longrightarrow>
      futures s2 = futures s \<and> callers s2 = callers s \<and>
      (\<forall>t \<in> set (cl_tasks (cleaners s ! j)). p_pc (procs s ! t) = PDone) \<and>
      queues s2 = Map.empty \<and> sequence_counters s2 = Map.empty \<and>
      pending_requests s2 = Map.empty \<and> tasks s2 = [] \<and>
      cl_done (cleaners s2 ! j) \<and> \<not> lock_held s2)"
proof -
  have b: "futures s1 = futures s \<and> callers s1 = callers s \<and>
      (\<forall>t \<in> set (tasks s). t < length (procs s) \<and> p_pc (procs s ! t) \<noteq> PDone \<longrightarrow>
           must_cancel (procs s1 ! t)) \<and>
      (tasks s \<noteq> [] \<longrightarrow> lock_held s1 \<and>
           cleaners s1 = cleaners s @ [\<lparr>cl_tasks = tasks s, cl_done = False\<rparr>]) \<and>
      (tasks s = [] \<longrightarrow> queues s1 = Map.empty \<and> sequence_counters s1 = Map.empty \<and>
           pending_requests s1 = Map.empty \<and>
           cleaners s1 = cleaners s @ [\<lparr>cl_tasks = [], cl_done = True\<rparr>])"
    if "cleanup_begin s = Some s1"
  proof -
    from that have pr: "procs s1 = cancel_all (tasks s) (procs s)"
      by (auto simp: cleanup_begin_def clear_all_def Let_def split: if_splits)
    have "must_cancel (procs s1 ! t)"
      if "t \<in> set (tasks s)" "t < length (procs s)" "p_pc (procs s ! t) \<noteq> PDone" for t
      using that by (simp add: pr cancel_all_nth)
    moreover from \<open>cleanup_begin s = Some s1\<close>
    have "futures s1 = futures s" "callers s1 = callers s"
      "tasks s \<noteq> [] \<longrightarrow> lock_held s1 \<and>
           cleaners s1 = cleaners s @ [\<lparr>cl_tasks = tasks s, cl_done = False\<rparr>]"
      "tasks s = [] \<longrightarrow> queues s1 = Map.empty \<and> sequence_counters s1 = Map.empty \<and>
           pending_requests s1 = Map.empty \<and>
           cleaners s1 = cleaners s @ [\<lparr>cl_tasks = [], cl_done = True\<rparr>]"
      by (auto simp: cleanup_begin_def clear_all_def Let_def split: if_splits)
    ultimately show ?thesis by blast
  qed
  have e: "futures s2 = futures s \<and> callers s2 = callers s \<and>
      (\<forall>t \<in> set (cl_tasks (cleaners s ! j)). p_pc (procs s ! t) = PDone) \<and>
      queues s2 = Map.empty \<and> sequence_counters s2 = Map.empty \<and>
      pending_requests s2 = Map.empty \<and> tasks s2 = [] \<and>
      cl_done (cleaners s2 ! j) \<and> \<not> lock_held s2"
    if "cleanup_end j s = Some s2"
    using that
    by (auto simp: cleanup_end_def clear_all_def list_all_iff split: if_splits)
  from b e show ?thesis by blast
qed

theorem cleanup_cancels_and_clears_witness:
  "cleanup_begin (the (run [Enqueue 7 100] (the (new_request_queue 10)))) \<noteq> None \<and>
   futures (the (cleanup_begin (the (run [Enqueue 7 100] (the (new_request_queue 10))))))
     = [Pending] \<and>
   must_cancel (procs (the (cleanup_begin
       (the (run [Enqueue 7 100] (the (new_request_queue 10)))))) ! 0) \<and>
   cleanup_end 0 (the (run [Enqueue 7 100, CleanupBegin, ProcCancelled 0]
       (the (new_request_queue 10)))) \<noteq> None \<and>
   futures (the (cleanup_end 0 (the (run [Enqueue 7 100, CleanupBegin, ProcCancelled 0]
       (the (new_request_queue 10)))))) = [Pending] \<and>
   queues (the (cleanup_end 0 (the (run [Enqueue 7 100, CleanupBegin, ProcCancelled 0]
       (the (new_request_queue 10)))))) = Map.empty"
  using cleanup_cancels_and_clears
    [of "the (run [Enqueue 7 100] (the (new_request_queue 10)))"
        "the (cleanup_begin (the (run [Enqueue 7 100] (the (new_request_queue 10)))))"
        0 "the (new_request_queue 10)"]
    cleanup_cancels_and_clears
    [of "the (run [Enqueue 7 100, CleanupBegin, ProcCancelled 0] (the (new_request_queue 10)))"
        "the (new_request_queue 10)" 0
        "the (cleanup_end 0 (the (run [Enqueue 7 100, CleanupBegin, ProcCancelled 0]
                (the (new_request_queue 10)))))"]
  by (simp add: step_defs)

subsection \<open>Leaving the loop, and the teardown\<close>

lemma loop_head_pc:
  "\<exists>P'. procs (loop_head p s) = (procs s)[p := P'] \<and> in_loop (p_pc P')"
  by (cases "(pending_objs s ! p_pending (procs s ! p)) (next_sequence (procs s ! p))")
     (auto simp: loop_head_def Let_def in_loop_def)

lemma task_done_pc:
  "\<exists>P'. procs (task_done p s) = (procs s)[p := P'] \<and> in_loop (p_pc P')"
proof (cases "unfinished_tasks (queue_objs s ! p_queue (procs s ! p)) = 0")
  case True
  then show ?thesis by (auto simp: task_done_def Let_def in_loop_def)
next
  case False
  let ?s1 = "s\<lparr>queue_objs := (queue_objs s)[p_queue (procs s ! p) :=
                 (queue_objs s ! p_queue (procs s ! p))
                   \<lparr>unfinished_tasks := unfinished_tasks (queue_objs s ! p_queue (procs s ! p)) - 1\<rparr>],
               procs := (procs s)[p := (procs s ! p)\<lparr>next_sequence := next_sequence (procs s ! p) + 1\<rparr>]\<rparr>"
  from False have td: "task_done p s = loop_head p ?s1"
    by (simp add: task_done_def Let_def)
  from loop_head_pc [of p ?s1] show ?thesis unfolding td by auto
qed

text \<open>The events of processor \<open>p\<close>.\<close>

lemma proc_get_pc:
  assumes "proc_get q s = Some s'"
  shows "\<exists>P'. procs s' = (procs s)[q := P'] \<and> in_loop (p_pc P')"
proof -
  from assms obtain s1 where "s' = loop_head q s1" "procs s1 = procs s"
    by (auto simp: proc_get_def Let_def split: if_splits list.splits)
  with loop_head_pc [of q s1] show ?thesis by auto
qed

lemma proc_finish_pc:
  assumes "proc_finish q out s = Some s'"
  shows "\<exists>P'. procs s' = (procs s)[q := P'] \<and>
              (if out = CancelledInside then p_pc P' = PFinally else in_loop (p_pc P'))"
proof (cases "out = CancelledInside")
  case True
  with assms show ?thesis
    by (auto simp: proc_finish_def split: if_splits option.splits)
next
  case False
  with assms obtain s1 where "s' = task_done q s1" "procs s1 = procs s"
    by (cases out) (auto simp: proc_finish_def split: if_splits option.splits)
  with task_done_pc [of q s1] False show ?thesis by auto
qed

lemma own_events_only:
  assumes st: "step ev s = Some s'" and p: "p < length (procs s)"
    and ch: "p_pc (procs s' ! p) \<noteq> p_pc (procs s ! p)"
  shows "ev = ProcStart p \<or> ev = ProcGet p \<or> ev = ProcAcquire p \<or>
         (\<exists>out. ev = ProcFinish p out) \<or> ev = ProcCancelled p \<or> ev = ProcTeardown p"
proof (cases ev)
  case (Enqueue cid t)
  with st have "procs s' = procs s \<or> (\<exists>P. procs s' = procs s @ [P])"
    by (auto simp: enqueue_request_def get_queue_def Let_def split: if_splits option.splits)
  with p ch show ?thesis by (auto simp: nth_append)
next
  case (CallerReturn i)
  with st have "procs s' = procs s"
    by (auto simp: caller_return_def split: if_splits option.splits fut.splits)
  with ch show ?thesis by simp
next
  case (CallerTimeout i)
  with st have "procs s' = procs s"
    by (auto simp: caller_timeout_def split: if_splits option.splits)
  with ch show ?thesis by simp
next
  case (ProcStart q)
  with st have "\<exists>P'. procs s' = (procs s)[q := P']"
    by (auto simp: proc_start_def Let_def split: if_splits option.splits)
  with p ch ProcStart show ?thesis by (cases "q = p") auto
next
  case (ProcGet q)
  with st proc_get_pc [of q s s'] have "\<exists>P'. procs s' = (procs s)[q := P']" by auto
  with p ch ProcGet show ?thesis by (cases "q = p") auto
next
  case (ProcAcquire q)
  with st have "\<exists>P'. procs s' = (procs s)[q := P']"
    by (auto simp: proc_acquire_def split: if_splits option.splits)
  with p ch ProcAcquire show ?thesis by (cases "q = p") auto
next
  case (ProcFinish q out)
  with st proc_finish_pc [of q out s s'] have "\<exists>P'. procs s' = (procs s)[q := P']" by auto
  with p ch ProcFinish show ?thesis by (cases "q = p") auto
next
  case (ProcCancelled q)
  with st have "\<exists>P'. procs s' = (procs s)[q := P']"
    by (auto simp: proc_cancelled_def Let_def split: if_splits proc_pc.splits)
  with p ch ProcCancelled show ?thesis by (cases "q = p") auto
next
  case (ProcTeardown q)
  with st have "\<exists>P'. procs s' = (procs s)[q := P']"
    by (auto simp: proc_teardown_def Let_def split: if_splits option.splits)
  with p ch ProcTeardown show ?thesis by (cases "q = p") auto
next
  case CleanupBegin
  with st have "procs s' = cancel_all (tasks s) (procs s)"
    by (auto simp: cleanup_begin_def clear_all_def Let_def split: if_splits)
  with p ch show ?thesis by (simp add: cancel_all_fields)
next
  case (CleanupEnd j)
  with st have "procs s' = procs s"
    by (auto simp: cleanup_end_def clear_all_def split: if_splits)
  with ch show ?thesis by simp
next
  case AcquireEnter
  with st have "procs s' = procs s" by (auto simp: acquire_enter_def split: if_splits)
  with ch show ?thesis by simp
next
  case (AcquireSlot a)
  with st have "procs s' = procs s" by (auto simp: acquire_slot_def split: if_splits)
  with ch show ?thesis by simp
next
  case (AcquireExit a)
  with st have "procs s' = procs s" by (auto simp: acquire_exit_def split: if_splits)
  with ch show ?thesis by simp
next
  case (AcquireLeave a)
  with st have "procs s' = procs s" by (auto simp: acquire_leave_def split: if_splits)
  with ch show ?thesis by simp
qed

lemma leaves_loop_only_cancelled:
  assumes st: "step ev s = Some s'" and p: "p < length (procs s)"
    and il: "in_loop (p_pc (procs s ! p))" and out: "\<not> in_loop (p_pc (procs s' ! p))"
  shows "ev = ProcCancelled p \<or> ev = ProcFinish p CancelledInside"
proof -
  from il out have "p_pc (procs s' ! p) \<noteq> p_pc (procs s ! p)" by auto
  from own_events_only [OF st p this]
  consider "ev = ProcStart p" | "ev = ProcGet p" | "ev = ProcAcquire p"
    | out' where "ev = ProcFinish p out'" | "ev = ProcCancelled p" | "ev = ProcTeardown p"
    by blast
  then show ?thesis
  proof cases
    case 1
    with st il show ?thesis by (auto simp: proc_start_def in_loop_def split: if_splits)
  next
    case 2
    with st proc_get_pc [of p s s'] p out show ?thesis by auto
  next
    case 3
    with st p out show ?thesis
      by (auto simp: proc_acquire_def in_loop_def split: if_splits option.splits)
  next
    case 4
    with st proc_finish_pc [of p out' s s'] p out show ?thesis
      by (cases "out' = CancelledInside") auto
  next
    case 5
    then show ?thesis by simp
  next
    case 6
    with st il show ?thesis by (auto simp: proc_teardown_def in_loop_def split: if_splits)
  qed
qed


lemma procs_length_step: "step ev s = Some s' \<Longrightarrow> length (procs s) \<le> length (procs s')"
proof (cases ev)
  case (Enqueue cid t)
  then show "step ev s = Some s' \<Longrightarrow> ?thesis"
    by (auto simp: enqueue_request_def get_queue_def Let_def split: if_splits option.splits)
next
  case (ProcGet q)
  then show "step ev s = Some s' \<Longrightarrow> ?thesis"
    using proc_get_pc [of q s s'] by auto
next
  case (ProcFinish q out)
  then show "step ev s = Some s' \<Longrightarrow> ?thesis"
    using proc_finish_pc [of q out s s'] by auto
qed (auto simp: caller_return_def caller_timeout_def proc_start_def proc_acquire_def
       proc_cancelled_def proc_teardown_def cleanup_begin_def cleanup_end_def clear_all_def
       acquire_enter_def acquire_slot_def acquire_exit_def acquire_leave_def Let_def
     split: if_splits option.splits fut.splits proc_pc.splits)

lemma stays_in_loop:
  "run evs s = Some s' \<Longrightarrow> p < length (procs s) \<Longrightarrow> in_loop (p_pc (procs s ! p)) \<Longrightarrow>
   ProcCancelled p \<notin> set evs \<Longrightarrow> ProcFinish p CancelledInside \<notin> set evs \<Longrightarrow>
   p < length (procs s') \<and> in_loop (p_pc (procs s' ! p))"
proof (induction evs arbitrary: s)
  case Nil
  then show ?case by simp
next
  case (Cons ev evs)
  then obtain s1 where s1: "step ev s = Some s1" and r: "run evs s1 = Some s'"
    by (auto split: option.splits)
  from Cons.prems(4,5) have ne: "ev \<noteq> ProcCancelled p" "ev \<noteq> ProcFinish p CancelledInside"
    and rest: "ProcCancelled p \<notin> set evs" "ProcFinish p CancelledInside \<notin> set evs"
    by auto
  from procs_length_step [OF s1] Cons.prems(2) have p1: "p < length (procs s1)" by simp
  from leaves_loop_only_cancelled [OF s1 Cons.prems(2,3)] ne
  have il: "in_loop (p_pc (procs s1 ! p))" by blast
  from Cons.IH [OF r p1 il rest] show ?case .
qed

end
